theory Spec2Isabelle
  imports Complex_Main "HOL-Library.Multiset" "HOL-Library.Char_ord" "HOL-Library.List_Lexorder"
begin

section \<open>Characters and numbers as the scripts read them\<close>

text \<open>
  The two scripts \<^verbatim>\<open>analyze_results.py\<close> (the simpler variant) and
  \<^verbatim>\<open>analyze_results_report.py\<close> (the richer variant) read text files and file names
  and search them with regular expressions of Python's \<^verbatim>\<open>re\<close> module. Texts are
  modelled as \<^typ>\<open>string\<close> over the ASCII alphabet; the character classes below are
  the ASCII part of the classes of \<^verbatim>\<open>re\<close> on \<^verbatim>\<open>str\<close>. Python floats are
  modelled by the rational number the decimal denotes (\<^typ>\<open>rat\<close>), Python's unbounded
  integers by \<^typ>\<open>nat\<close> where only digits are read. Where a script computes with
  floats and rounds the result (the busy percentage of the richer CPU parser), the rounding of
  binary floating point is modelled as well.
\<close>

definition is_digit :: "char \<Rightarrow> bool" where
  "is_digit c = (c \<in> set ''0123456789'')"

definition is_space :: "char \<Rightarrow> bool" where
  "is_space c = (c \<in> set [CHR '' '', CHR 0x09, CHR 0x0A, CHR 0x0B, CHR 0x0C, CHR 0x0D,
                            CHR 0x1C, CHR 0x1D, CHR 0x1E, CHR 0x1F])"

definition is_upper :: "char \<Rightarrow> bool" where
  "is_upper c = (c \<in> set ''ABCDEFGHIJKLMNOPQRSTUVWXYZ'')"

definition is_lower :: "char \<Rightarrow> bool" where
  "is_lower c = (c \<in> set ''abcdefghijklmnopqrstuvwxyz'')"

definition is_word :: "char \<Rightarrow> bool" where
  "is_word c = (is_digit c \<or> is_upper c \<or> is_lower c \<or> c = CHR ''_'')"

definition lower_char :: "char \<Rightarrow> char" where
  "lower_char c =
     (case map_of (zip ''ABCDEFGHIJKLMNOPQRSTUVWXYZ'' ''abcdefghijklmnopqrstuvwxyz'') c of
        Some l \<Rightarrow> l
      | None \<Rightarrow> c)"

definition lower :: "string \<Rightarrow> string" where
  "lower s = map lower_char s"

definition strip :: "string \<Rightarrow> string" where
  "strip s = rev (dropWhile is_space (rev (dropWhile is_space s)))"

definition digit_val :: "char \<Rightarrow> nat" where
  "digit_val c = (case map_of (zip ''0123456789'' [0, 1, 2, 3, 4, 5, 6, 7, 8, 9]) c of
                    Some d \<Rightarrow> d
                  | None \<Rightarrow> 0)"

definition int_of_digits :: "string \<Rightarrow> nat" where
  "int_of_digits s = foldl (\<lambda>n c. 10 * n + digit_val c) 0 s"

definition float_of_decimal :: "string \<Rightarrow> rat" where
  "float_of_decimal s =
     (let ip = takeWhile is_digit s; r = dropWhile is_digit s
      in case r of
           [] \<Rightarrow> of_nat (int_of_digits ip)
         | _ # fp \<Rightarrow> of_nat (int_of_digits ip) + of_nat (int_of_digits fp) / 10 ^ length fp)"

section \<open>The fragment of Python's regular expressions the scripts use\<close>

datatype cset = Digit | Space | Word | Dot | NotDigit | NotNewline

datatype regex =
    Lit string
  | Rep cset nat "nat option"
  | Seq regex regex
  | Alt regex regex
  | Opt regex
  | Group nat regex
  | Eps
  | Bol
  | NotBehind cset
  | NotAhead cset

record flags =
  ignorecase :: bool
  dotall :: bool
  multiline :: bool

definition no_flags :: flags where
  "no_flags = \<lparr>ignorecase = False, dotall = False, multiline = False\<rparr>"

definition IGNORECASE :: flags where
  "IGNORECASE = \<lparr>ignorecase = True, dotall = False, multiline = False\<rparr>"

definition IGNORECASE_DOTALL :: flags where
  "IGNORECASE_DOTALL = \<lparr>ignorecase = True, dotall = True, multiline = False\<rparr>"

definition MULTILINE_IGNORECASE :: flags where
  "MULTILINE_IGNORECASE = \<lparr>ignorecase = True, dotall = False, multiline = True\<rparr>"

fun cmem :: "flags \<Rightarrow> cset \<Rightarrow> char \<Rightarrow> bool" where
  "cmem fl Digit c = is_digit c"
| "cmem fl Space c = is_space c"
| "cmem fl Word c = is_word c"
| "cmem fl Dot c = (dotall fl \<or> c \<noteq> CHR 0x0A)"
| "cmem fl NotDigit c = (\<not> is_digit c)"
| "cmem fl NotNewline c = (c \<noteq> CHR 0x0A)"

definition ceq :: "flags \<Rightarrow> char \<Rightarrow> char \<Rightarrow> bool" where
  "ceq fl a b = (if ignorecase fl then lower_char a = lower_char b else a = b)"

type_synonym caps = "nat \<Rightarrow> string option"

text \<open>
  A backtracking matcher in continuation-passing style: the continuation stands for the
  rest of the pattern, and a branch that makes it fail is abandoned for the next one in
  the order of \<^verbatim>\<open>re\<close> (the longer repetition first, the left alternative first, the
  optional part first). The matcher carries the character before the current position
  (for \<^verbatim>\<open>^\<close> and the look-behind), the remaining text and the groups captured so far.
\<close>

fun lit :: "flags \<Rightarrow> string \<Rightarrow> (char option \<Rightarrow> string \<Rightarrow> 'a option) \<Rightarrow>
    char option \<Rightarrow> string \<Rightarrow> 'a option" where
  "lit fl [] k p s = k p s"
| "lit fl (a # as) k p [] = None"
| "lit fl (a # as) k p (x # xs) = (if ceq fl a x then lit fl as k (Some x) xs else None)"

fun rep :: "(char \<Rightarrow> bool) \<Rightarrow> nat \<Rightarrow> nat option \<Rightarrow> nat \<Rightarrow>
    (char option \<Rightarrow> string \<Rightarrow> 'a option) \<Rightarrow> char option \<Rightarrow> string \<Rightarrow> 'a option" where
  "rep P lo hi i k p [] = (if lo \<le> i then k p [] else None)"
| "rep P lo hi i k p (x # xs) =
     (if P x \<and> (case hi of None \<Rightarrow> True | Some h \<Rightarrow> i < h)
      then (case rep P lo hi (Suc i) k (Some x) xs of
              Some r \<Rightarrow> Some r
            | None \<Rightarrow> if lo \<le> i then k p (x # xs) else None)
      else if lo \<le> i then k p (x # xs) else None)"

fun rmatch :: "flags \<Rightarrow> regex \<Rightarrow> (char option \<Rightarrow> string \<Rightarrow> caps \<Rightarrow> 'a option) \<Rightarrow>
    char option \<Rightarrow> string \<Rightarrow> caps \<Rightarrow> 'a option" where
  "rmatch fl (Lit l) k p s c = lit fl l (\<lambda>p' s'. k p' s' c) p s"
| "rmatch fl (Rep cs lo hi) k p s c = rep (cmem fl cs) lo hi 0 (\<lambda>p' s'. k p' s' c) p s"
| "rmatch fl (Seq a b) k p s c = rmatch fl a (\<lambda>p' s' c'. rmatch fl b k p' s' c') p s c"
| "rmatch fl (Alt a b) k p s c =
     (case rmatch fl a k p s c of Some r \<Rightarrow> Some r | None \<Rightarrow> rmatch fl b k p s c)"
| "rmatch fl (Opt a) k p s c =
     (case rmatch fl a k p s c of Some r \<Rightarrow> Some r | None \<Rightarrow> k p s c)"
| "rmatch fl (Group n a) k p s c =
     rmatch fl a (\<lambda>p' s' c'. k p' s' (c'(n \<mapsto> take (length s - length s') s))) p s c"
| "rmatch fl Eps k p s c = k p s c"
| "rmatch fl Bol k p s c =
     (if p = None \<or> (multiline fl \<and> p = Some (CHR 0x0A)) then k p s c else None)"
| "rmatch fl (NotBehind cs) k p s c =
     (case p of None \<Rightarrow> k p s c | Some x \<Rightarrow> if cmem fl cs x then None else k p s c)"
| "rmatch fl (NotAhead cs) k p s c =
     (case s of [] \<Rightarrow> k p s c | x # _ \<Rightarrow> if cmem fl cs x then None else k p s c)"

text \<open>\<^verbatim>\<open>re.match\<close> tries the start of the text only; \<^verbatim>\<open>re.search\<close> tries every
  position from the left and keeps the first that matches.\<close>

definition re_match :: "flags \<Rightarrow> regex \<Rightarrow> string \<Rightarrow> caps option" where
  "re_match fl r s = rmatch fl r (\<lambda>p' s' c'. Some c') None s Map.empty"

fun search_from :: "flags \<Rightarrow> regex \<Rightarrow> char option \<Rightarrow> string \<Rightarrow> caps option" where
  "search_from fl r p [] = rmatch fl r (\<lambda>p' s' c'. Some c') p [] Map.empty"
| "search_from fl r p (x # xs) =
     (case rmatch fl r (\<lambda>p' s' c'. Some c') p (x # xs) Map.empty of
        Some c \<Rightarrow> Some c
      | None \<Rightarrow> search_from fl r (Some x) xs)"

definition re_search :: "flags \<Rightarrow> regex \<Rightarrow> string \<Rightarrow> caps option" where
  "re_search fl r s = search_from fl r None s"

definition seq :: "regex list \<Rightarrow> regex" where
  "seq rs = foldr Seq rs Eps"

section \<open>The Extractor\<close>

subsection \<open>Patterns shared by the two scripts\<close>

text \<open>\<^verbatim>\<open>[0-9]+(?:\.[0-9]+)?\<close>, \<^verbatim>\<open>\s*\<close> and \<^verbatim>\<open>.*\<close>.\<close>

definition number :: regex where
  "number = Seq (Rep Digit 1 None) (Opt (Seq (Lit ''.'') (Rep Digit 1 None)))"

definition ws :: regex where
  "ws = Rep Space 0 None"

definition dotstar :: regex where
  "dotstar = Rep Dot 0 None"

text \<open>The three busy patterns of \<^verbatim>\<open>parse_avg_cpu_file\<close> and the idle pattern of its
  fallback, in the order of the source.\<close>

definition cpu_pat_full :: regex where
  "cpu_pat_full = seq [Lit ''AVG busy'', dotstar, Lit ''='', ws, Group 1 number, ws, Lit ''%'',
     dotstar, Lit ''avg idle'', ws, Lit ''='', ws, Group 2 number, ws, Lit ''%'',
     dotstar, Lit ''over'', ws, Group 3 (Rep Digit 1 None), ws, Lit ''samples'']"

definition cpu_pat_samples :: regex where
  "cpu_pat_samples = seq [Lit ''AVG busy'', dotstar, Lit ''='', ws, Group 1 number, ws, Lit ''%'',
     dotstar, Lit ''over'', ws, Group 2 (Rep Digit 1 None), ws, Lit ''samples'']"

definition cpu_pat_min :: regex where
  "cpu_pat_min = seq [Lit ''AVG busy'', dotstar, Lit ''='', ws, Group 1 number, ws, Lit ''%'']"

definition cpu_pat_idle :: regex where
  "cpu_pat_idle = seq [Lit ''avg idle'', ws, Lit ''='', ws, Group 1 number, ws, Lit ''%'']"

record cpu_metric =
  busy :: "rat option"
  idle :: "rat option"
  samples :: "nat option"

text \<open>\<^verbatim>\<open>len(m.groups())\<close>: the number of groups of the pattern.\<close>

fun ngroups :: "regex \<Rightarrow> nat" where
  "ngroups (Seq a b) = ngroups a + ngroups b"
| "ngroups (Alt a b) = ngroups a + ngroups b"
| "ngroups (Opt a) = ngroups a"
| "ngroups (Group n a) = Suc (ngroups a)"
| "ngroups r = 0"

text \<open>\<^verbatim>\<open>m.group(n)\<close> of a group that took part in the match. Every group read this
  way below belongs to the mandatory part of its pattern.\<close>

definition group :: "caps \<Rightarrow> nat \<Rightarrow> string" where
  "group m n = the (m n)"

subsection \<open>\<^verbatim>\<open>parse_avg_cpu_file\<close>, simpler variant (analyze\_results.py)\<close>

fun cpu_patterns_loop :: "regex list \<Rightarrow> string \<Rightarrow> cpu_metric option" where
  "cpu_patterns_loop [] text = None"
| "cpu_patterns_loop (pat # pats) text =
     (case re_search IGNORECASE_DOTALL pat text of
        Some m \<Rightarrow>
          if ngroups pat = 3
          then Some \<lparr>busy = Some (float_of_decimal (group m 1)),
                     idle = Some (float_of_decimal (group m 2)),
                     samples = Some (int_of_digits (group m 3))\<rparr>
          else if ngroups pat = 2
          then Some \<lparr>busy = Some (float_of_decimal (group m 1)), idle = None,
                     samples = Some (int_of_digits (group m 2))\<rparr>
          else Some \<lparr>busy = Some (float_of_decimal (group m 1)), idle = None, samples = None\<rparr>
      | None \<Rightarrow> cpu_patterns_loop pats text)"

definition parse_avg_cpu_file :: "string \<Rightarrow> cpu_metric option" where
  "parse_avg_cpu_file text =
     (case cpu_patterns_loop [cpu_pat_full, cpu_pat_samples, cpu_pat_min] text of
        Some r \<Rightarrow> Some r
      | None \<Rightarrow>
          (case re_search IGNORECASE cpu_pat_idle text of
             Some m2 \<Rightarrow> Some \<lparr>busy = None, idle = Some (float_of_decimal (group m2 1)),
                              samples = None\<rparr>
           | None \<Rightarrow> None))"

subsection \<open>\<^verbatim>\<open>parse_avg_cpu_file\<close>, richer variant (analyze\_results\_report.py)\<close>

text \<open>
  The fallback branch of this variant computes \<^verbatim>\<open>round(100.0 - idle, 2)\<close> on binary
  floating-point numbers (IEEE 754 binary64), so the rounding of the arithmetic is modelled:
  \<open>double q\<close> is the double nearest to the rational \<open>q\<close>, a tie going to the even
  significand. A double has a significand of 53 bits; its unit in the last place is
  \<open>2 ^ (e - 52)\<close> for a number in \<open>[2 ^ e, 2 ^ (e + 1))\<close> and never less than
  \<open>2 ^ -1074\<close> (the subnormal numbers). \<open>double\<close> is the value of \<^verbatim>\<open>float\<close> on a
  decimal and of an arithmetic operation on its exact result, for numbers up to
  \<open>max_double\<close>; beyond it Python's floats are infinite, which is outside the model.

  \<^verbatim>\<open>round(x, 2)\<close> rounds the exact value of the double \<open>x\<close> to the nearest multiple of
  1/100, a tie going to the even one, and returns the double nearest to this decimal, for which
  the decimal stands here as everywhere.
\<close>

function bit_length :: "int \<Rightarrow> nat" where
  "bit_length n = (if n \<le> 0 then 0 else Suc (bit_length (n div 2)))"
  by pat_completeness auto
termination
  by (relation "measure nat") auto

declare bit_length.simps [simp del]

definition pow2 :: "int \<Rightarrow> rat" where
  "pow2 k = (if 0 \<le> k then of_int (2 ^ nat k) else 1 / of_int (2 ^ nat (- k)))"

text \<open>The integer nearest to \<open>y\<close>, a tie going to the even one.\<close>

definition round_half_even :: "rat \<Rightarrow> int" where
  "round_half_even y =
     (let f = \<lfloor>y\<rfloor>; d = y - of_int f
      in if d < 1 / 2 then f else if 1 / 2 < d then f + 1 else if even f then f else f + 1)"

text \<open>The binary exponent of a positive rational: the \<open>e\<close> with \<open>2 ^ e \<le> a < 2 ^ (e + 1)\<close>.\<close>

definition exponent :: "rat \<Rightarrow> int" where
  "exponent a =
     (if 1 \<le> a then int (bit_length \<lfloor>a\<rfloor>) - 1
      else - int (bit_length (\<lceil>1 / a\<rceil> - 1)))"

definition double :: "rat \<Rightarrow> rat" where
  "double q =
     (if q = 0 then 0
      else (let a = \<bar>q\<bar>; p = max (exponent a - 52) (- 1074); m = round_half_even (a / pow2 p)
            in sgn q * of_int m * pow2 p))"

definition max_double :: rat where
  "max_double = of_int ((2 ^ 53 - 1) * 2 ^ 971)"

definition round2 :: "rat \<Rightarrow> rat" where
  "round2 x = of_int (round_half_even (x * 100)) / 100"

definition parse_avg_cpu_file_report :: "string \<Rightarrow> cpu_metric option" where
  "parse_avg_cpu_file_report text =
     (case re_search IGNORECASE_DOTALL cpu_pat_full text of
        Some m \<Rightarrow> Some \<lparr>busy = Some (float_of_decimal (group m 1)),
                        idle = Some (float_of_decimal (group m 2)),
                        samples = Some (int_of_digits (group m 3))\<rparr>
      | None \<Rightarrow>
     (case re_search IGNORECASE cpu_pat_samples text of
        Some m2 \<Rightarrow> Some \<lparr>busy = Some (float_of_decimal (group m2 1)), idle = None,
                         samples = Some (int_of_digits (group m2 2))\<rparr>
      | None \<Rightarrow>
     (case re_search IGNORECASE cpu_pat_min text of
        Some m3 \<Rightarrow> Some \<lparr>busy = Some (float_of_decimal (group m3 1)), idle = None,
                         samples = None\<rparr>
      | None \<Rightarrow>
     (case re_search IGNORECASE cpu_pat_idle text of
        Some m4 \<Rightarrow>
          (let idle = float_of_decimal (group m4 1); busy = round2 (double (100 - double idle))
           in Some \<lparr>busy = Some busy, idle = Some idle, samples = None\<rparr>)
      | None \<Rightarrow> None))))"

subsection \<open>\<^verbatim>\<open>convert_to_seconds\<close>\<close>

text \<open>
  \<^verbatim>\<open>([0-9]+(?:\.[0-9]+)?)\s*(ms|s|us)?\<close>. The built-in \<^verbatim>\<open>float\<close> of the
  fall-back branch is a parameter \<open>py_float\<close>: \<open>None\<close> where the built-in raises
  (the source catches it and returns \<^verbatim>\<open>None\<close>).
\<close>

definition unit_alt :: regex where
  "unit_alt = Alt (Lit ''ms'') (Alt (Lit ''s'') (Lit ''us''))"

definition seconds_pat :: regex where
  "seconds_pat = seq [Group 1 number, ws, Opt (Group 2 unit_alt)]"

text \<open>\<^verbatim>\<open>m.group(n) or d\<close>\<close>

definition group_or :: "caps \<Rightarrow> nat \<Rightarrow> string \<Rightarrow> string" where
  "group_or m n d = (case m n of None \<Rightarrow> d | Some g \<Rightarrow> if g = [] then d else g)"

definition convert_to_seconds :: "(string \<Rightarrow> rat option) \<Rightarrow> string option \<Rightarrow> rat option" where
  "convert_to_seconds py_float val_str =
     (case val_str of
        None \<Rightarrow> None
      | Some v \<Rightarrow>
          (let val_str = strip v
           in case re_match IGNORECASE seconds_pat val_str of
                None \<Rightarrow> py_float val_str
              | Some m \<Rightarrow>
                  (let val = float_of_decimal (group m 1); unit = lower (group_or m 2 ''s'')
                   in if unit = ''ms'' then Some (val / 1000)
                      else if unit = ''us'' then Some (val / 1000000)
                      else Some val)))"

definition convert_to_seconds_report ::
    "(string \<Rightarrow> rat option) \<Rightarrow> string option \<Rightarrow> rat option" where
  "convert_to_seconds_report py_float val_str =
     (case val_str of
        None \<Rightarrow> None
      | Some v \<Rightarrow>
          (let s = lower (strip v)
           in case re_match no_flags seconds_pat s of
                None \<Rightarrow> py_float s
              | Some m \<Rightarrow>
                  (let val = float_of_decimal (group m 1); unit = group_or m 2 ''s''
                   in if unit = ''ms'' then Some (val / 1000)
                      else if unit = ''us'' then Some (val / 1000000)
                      else Some val)))"

subsection \<open>\<^verbatim>\<open>parse_wrk_file\<close>\<close>

text \<open>
  The dictionary \<^verbatim>\<open>res\<close>. The simpler variant has the key \<^verbatim>\<open>raw_errors\<close>, the
  richer one \<^verbatim>\<open>socket_errors\<close> and \<^verbatim>\<open>transfer_per_sec\<close>; one record holds the keys
  of both, and each variant leaves the keys of the other at \<open>None\<close>.
\<close>

record wrk_metric =
  requests_per_sec :: "rat option"
  p50 :: "rat option"
  p75 :: "rat option"
  p90 :: "rat option"
  p99 :: "rat option"
  raw_errors :: "string option"
  socket_errors :: "string option"
  transfer_per_sec :: "rat option"

definition res_init :: wrk_metric where
  "res_init = \<lparr>requests_per_sec = None, p50 = None, p75 = None, p90 = None, p99 = None,
     raw_errors = None, socket_errors = None, transfer_per_sec = None\<rparr>"

text \<open>\<^verbatim>\<open>[0-9]+(?:\.[0-9]+)?\s*(?:ms|s|us)?\<close>, the duration token of the latency patterns.\<close>

definition duration :: regex where
  "duration = seq [number, ws, Opt unit_alt]"

definition rps_pat :: regex where
  "rps_pat = seq [Lit ''Requests/sec:'', ws, Group 1 number]"

definition transfer_pat :: regex where
  "transfer_pat = seq [Lit ''Transfer/sec:'', ws, Group 1 number, Opt (Group 2 (Rep Word 1 None))]"

definition perc_pat :: "string \<Rightarrow> regex" where
  "perc_pat perc = seq [Bol, ws, Lit perc, Lit ''%'', Rep Space 1 None, Group 1 duration]"

definition inline_pat :: regex where
  "inline_pat = seq [Lit ''50%'', Rep NotDigit 0 None, Group 1 duration, Rep NotNewline 0 None,
     Lit ''75%'', Rep NotDigit 0 None, Group 2 duration, Rep NotNewline 0 None,
     Lit ''90%'', Rep NotDigit 0 None, Group 3 duration]"

definition p99_pat :: regex where
  "p99_pat = seq [Lit ''99%'', Rep NotDigit 0 None, Group 1 duration]"

text \<open>\<^verbatim>\<open>Socket errors:[^\n]*\<close>, read through \<^verbatim>\<open>group(0)\<close> (the whole match), and
  \<^verbatim>\<open>Socket errors:\s*([^\n]+)\<close>.\<close>

definition err_pat :: regex where
  "err_pat = Group 0 (seq [Lit ''Socket errors:'', Rep NotNewline 0 None])"

definition err_pat_report :: regex where
  "err_pat_report = seq [Lit ''Socket errors:'', ws, Group 1 (Rep NotNewline 1 None)]"

text \<open>\<^verbatim>\<open>res['p' + perc] = val\<close> for the four percentiles of the loop.\<close>

definition set_perc :: "string \<Rightarrow> rat option \<Rightarrow> wrk_metric \<Rightarrow> wrk_metric" where
  "set_perc perc val res =
     (if perc = ''50'' then res\<lparr>p50 := val\<rparr>
      else if perc = ''75'' then res\<lparr>p75 := val\<rparr>
      else if perc = ''90'' then res\<lparr>p90 := val\<rparr>
      else res\<lparr>p99 := val\<rparr>)"

definition step_rps :: "string \<Rightarrow> wrk_metric \<Rightarrow> wrk_metric" where
  "step_rps text res =
     (case re_search no_flags rps_pat text of
        Some m \<Rightarrow> res\<lparr>requests_per_sec := Some (float_of_decimal (group m 1))\<rparr>
      | None \<Rightarrow> res)"

definition step_perc ::
    "((string \<Rightarrow> rat option) \<Rightarrow> string option \<Rightarrow> rat option) \<Rightarrow> (string \<Rightarrow> rat option) \<Rightarrow>
     string \<Rightarrow> wrk_metric \<Rightarrow> string \<Rightarrow> wrk_metric" where
  "step_perc conv py_float text res perc =
     (case re_search MULTILINE_IGNORECASE (perc_pat perc) text of
        Some mm \<Rightarrow> set_perc perc (conv py_float (mm 1)) res
      | None \<Rightarrow> res)"

definition step_inline ::
    "((string \<Rightarrow> rat option) \<Rightarrow> string option \<Rightarrow> rat option) \<Rightarrow> (string \<Rightarrow> rat option) \<Rightarrow>
     string \<Rightarrow> wrk_metric \<Rightarrow> wrk_metric" where
  "step_inline conv py_float text res =
     (case re_search IGNORECASE inline_pat text of
        Some inline \<Rightarrow> res\<lparr>p50 := conv py_float (inline 1), p75 := conv py_float (inline 2),
                             p90 := conv py_float (inline 3)\<rparr>
      | None \<Rightarrow> res)"

definition step_p99 :: "(string \<Rightarrow> rat option) \<Rightarrow> string \<Rightarrow> wrk_metric \<Rightarrow> wrk_metric" where
  "step_p99 py_float text res =
     (case re_search IGNORECASE p99_pat text of
        Some m99 \<Rightarrow> res\<lparr>p99 := convert_to_seconds py_float (m99 1)\<rparr>
      | None \<Rightarrow> res)"

definition step_errors :: "string \<Rightarrow> wrk_metric \<Rightarrow> wrk_metric" where
  "step_errors text res =
     (case re_search no_flags err_pat text of
        Some m_err \<Rightarrow> res\<lparr>raw_errors := Some (strip (group m_err 0))\<rparr>
      | None \<Rightarrow> res)"

text \<open>The simpler variant: requests per second, the per-line loop, the inline trio, the
  separate search for 99\%, the socket errors.\<close>

definition parse_wrk_file :: "(string \<Rightarrow> rat option) \<Rightarrow> string \<Rightarrow> wrk_metric" where
  "parse_wrk_file py_float text =
     (let res = res_init;
          res = step_rps text res;
          res = foldl (step_perc convert_to_seconds py_float text) res [''50'', ''75'', ''90'', ''99''];
          res = step_inline convert_to_seconds py_float text res;
          res = step_p99 py_float text res;
          res = step_errors text res
      in res)"

definition step_transfer :: "string \<Rightarrow> wrk_metric \<Rightarrow> wrk_metric" where
  "step_transfer text res =
     (case re_search no_flags transfer_pat text of
        Some m2 \<Rightarrow>
          (let val = float_of_decimal (group m2 1); unit = lower (group_or m2 2 [])
           in if unit \<in> set [''kb'', ''k''] then res\<lparr>transfer_per_sec := Some val\<rparr>
              else if unit \<in> set [''mb'', ''m''] then res\<lparr>transfer_per_sec := Some (val * 1024)\<rparr>
              else res\<lparr>transfer_per_sec := Some val\<rparr>)
      | None \<Rightarrow> res)"

definition step_errors_report :: "string \<Rightarrow> wrk_metric \<Rightarrow> wrk_metric" where
  "step_errors_report text res =
     (case re_search no_flags err_pat_report text of
        Some m_err \<Rightarrow> res\<lparr>socket_errors := Some (strip (group m_err 1))\<rparr>
      | None \<Rightarrow> res)"

text \<open>The richer variant: requests per second, transfer per second, the per-line loop, the
  inline trio, the socket errors. It has no separate search for 99\%.\<close>

definition parse_wrk_file_report :: "(string \<Rightarrow> rat option) \<Rightarrow> string \<Rightarrow> wrk_metric" where
  "parse_wrk_file_report py_float text =
     (let res = res_init;
          res = step_rps text res;
          res = step_transfer text res;
          res = foldl (step_perc convert_to_seconds_report py_float text) res
                  [''50'', ''75'', ''90'', ''99''];
          res = step_inline convert_to_seconds_report py_float text res;
          res = step_errors_report text res
      in res)"

section \<open>The Collector\<close>

subsection \<open>The directory tree and file names\<close>

text \<open>
  An entry of a directory is a regular file with its text or a directory with its entries.
  The list of a directory's entries is in the order in which \<^verbatim>\<open>iterdir()\<close> yields them;
  \<^verbatim>\<open>sorted(...)\<close> orders entries by name. \<^verbatim>\<open>read_text\<close> of a directory raises.
\<close>

datatype node = File string string | Dir string "node list"

datatype error = IsADirectoryError

fun nname :: "node \<Rightarrow> string" where
  "nname (File n t) = n"
| "nname (Dir n ns) = n"

fun is_file :: "node \<Rightarrow> bool" where
  "is_file (File n t) = True"
| "is_file (Dir n ns) = False"

fun read_text :: "node \<Rightarrow> error + string" where
  "read_text (File n t) = Inr t"
| "read_text (Dir n ns) = Inl IsADirectoryError"

text \<open>\<^verbatim>\<open>s.startswith(p)\<close>, \<^verbatim>\<open>sub in s\<close> and \<^verbatim>\<open>Path.suffix\<close> (the part of the name from
  its last dot on, empty when that dot is the first or the last character).\<close>

definition startswith :: "string \<Rightarrow> string \<Rightarrow> bool" where
  "startswith s p = (take (length p) s = p)"

fun str_in :: "string \<Rightarrow> string \<Rightarrow> bool" where
  "str_in sub [] = (sub = [])"
| "str_in sub (x # xs) = (startswith (x # xs) sub \<or> str_in sub xs)"

definition path_suffix :: "string \<Rightarrow> string" where
  "path_suffix n =
     (if CHR ''.'' \<in> set n
      then (let i = length n - length (takeWhile (\<lambda>c. c \<noteq> CHR ''.'') (rev n)) - 1
            in if 0 < i \<and> i < length n - 1 then drop i n else [])
      else [])"

subsection \<open>Locating the files of a run\<close>

text \<open>Simpler variant: the load-test file (a loop with \<^verbatim>\<open>break\<close>), then the two loops
  over the CPU files (\<^verbatim>\<open>avg_cpu_\<close> names, then \<^verbatim>\<open>summary_\<close> names; no \<^verbatim>\<open>break\<close>).\<close>

fun find_wrk :: "node list \<Rightarrow> node option" where
  "find_wrk [] = None"
| "find_wrk (f # fs) =
     (if is_file f \<and> str_in ''wrk'' (nname f) \<and> path_suffix (nname f) \<in> set [''.txt'', ''.log'']
      then Some f else find_wrk fs)"

definition avg_step :: "node option \<times> node option \<Rightarrow> node \<Rightarrow> node option \<times> node option" where
  "avg_step slots f =
     (case slots of (avg_ips, avg_waf) \<Rightarrow>
        (if is_file f \<and> startswith (lower (nname f)) ''avg_cpu_ips'' then Some f else avg_ips,
         if is_file f \<and> startswith (lower (nname f)) ''avg_cpu_waf'' then Some f else avg_waf))"

definition summary_step :: "node option \<times> node option \<Rightarrow> node \<Rightarrow> node option \<times> node option" where
  "summary_step slots f =
     (case slots of (avg_ips, avg_waf) \<Rightarrow>
        (if is_file f \<and> startswith (lower (nname f)) ''summary_ips'' then Some f else avg_ips,
         if is_file f \<and> startswith (lower (nname f)) ''summary_waf'' then Some f else avg_waf))"

definition find_avg :: "node list \<Rightarrow> node option \<times> node option" where
  "find_avg files = foldl summary_step (foldl avg_step (None, None) files) files"

text \<open>Richer variant: one loop for the load-test file, one for the CPU files.\<close>

fun find_wrk_report :: "node list \<Rightarrow> node option" where
  "find_wrk_report [] = None"
| "find_wrk_report (f # fs) =
     (if is_file f \<and> str_in ''wrk'' (lower (nname f)) then Some f else find_wrk_report fs)"

definition avg_step_report ::
    "node option \<times> node option \<Rightarrow> node \<Rightarrow> node option \<times> node option" where
  "avg_step_report slots f =
     (case slots of (avg_ips, avg_waf) \<Rightarrow>
        (let n = lower (nname f)
         in (if str_in ''avg_cpu_ips'' n \<or> str_in ''summary_ips'' n then Some f else avg_ips,
             if str_in ''avg_cpu_waf'' n \<or> str_in ''summary_waf'' n then Some f else avg_waf)))"

definition find_avg_report :: "node list \<Rightarrow> node option \<times> node option" where
  "find_avg_report files = foldl avg_step_report (None, None) files"

subsection \<open>Deriving the concurrency\<close>

text \<open>\<^verbatim>\<open>(?<!\d)(\d{2,5})(?!\d)\<close>, \<^verbatim>\<open>(\d{2,5})\<close> and \<^verbatim>\<open>c(\d+)\<close>.\<close>

definition conc_pat :: regex where
  "conc_pat = seq [NotBehind Digit, Group 1 (Rep Digit 2 (Some 5)), NotAhead Digit]"

definition digits25_pat :: regex where
  "digits25_pat = Group 1 (Rep Digit 2 (Some 5))"

definition c_digits_pat :: regex where
  "c_digits_pat = seq [Lit ''c'', Group 1 (Rep Digit 1 None)]"

fun scan_concurrency :: "node list \<Rightarrow> nat option" where
  "scan_concurrency [] = None"
| "scan_concurrency (f # fs) =
     (case re_search no_flags conc_pat (nname f) of
        Some m \<Rightarrow>
          (let num = int_of_digits (group m 1)
           in if num \<in> set [50, 100, 200, 300, 500, 1000, 2000, 4000] \<or> 100 \<le> num
              then Some num else scan_concurrency fs)
      | None \<Rightarrow> scan_concurrency fs)"

definition name_concurrency :: "regex \<Rightarrow> nat option \<Rightarrow> node option \<Rightarrow> nat option" where
  "name_concurrency pat concurrency slot =
     (case (concurrency, slot) of
        (None, Some f) \<Rightarrow>
          (case re_search no_flags pat (nname f) of
             Some m \<Rightarrow> Some (int_of_digits (group m 1))
           | None \<Rightarrow> concurrency)
      | _ \<Rightarrow> concurrency)"

definition derive_concurrency :: "node list \<Rightarrow> node option \<Rightarrow> node option \<Rightarrow> nat option" where
  "derive_concurrency files avg_ips wrk_file =
     (let concurrency = scan_concurrency files;
          concurrency = name_concurrency digits25_pat concurrency avg_ips;
          concurrency = name_concurrency c_digits_pat concurrency wrk_file
      in concurrency)"

fun scan_concurrency_report :: "node list \<Rightarrow> nat option" where
  "scan_concurrency_report [] = None"
| "scan_concurrency_report (f # fs) =
     (case re_search no_flags conc_pat (nname f) of
        Some m \<Rightarrow>
          (let num = int_of_digits (group m 1)
           in if num \<in> set [50, 100, 200, 300, 500, 1000, 2000] \<or> 100 < num
              then Some num else scan_concurrency_report fs)
      | None \<Rightarrow> scan_concurrency_report fs)"

definition derive_concurrency_report :: "node list \<Rightarrow> node option \<Rightarrow> nat option" where
  "derive_concurrency_report files wrk =
     (let concurrency = scan_concurrency_report files;
          concurrency = name_concurrency c_digits_pat concurrency wrk
      in concurrency)"

subsection \<open>One row per run\<close>

text \<open>
  The dictionary \<^verbatim>\<open>data\<close> of a run, with the keys of both variants (the keys of
  \<^verbatim>\<open>res\<close> carry the prefix \<open>row_\<close> here); each variant leaves the keys of the other at
  \<open>None\<close>. The description of the scenario, which no function below reads, is left out.
\<close>

record row =
  scenario :: string
  run :: string
  concurrency :: "nat option"
  path :: string
  avg_busy_ips :: "rat option"
  avg_idle_ips :: "rat option"
  samples_ips :: "nat option"
  avg_busy_waf :: "rat option"
  avg_idle_waf :: "rat option"
  samples_waf :: "nat option"
  row_requests_per_sec :: "rat option"
  row_p50 :: "rat option"
  row_p75 :: "rat option"
  row_p90 :: "rat option"
  row_p99 :: "rat option"
  row_raw_errors :: "string option"
  row_socket_errors :: "string option"
  row_transfer_per_sec :: "rat option"
  row_wrk_file :: "string option"

definition data_init :: "string \<Rightarrow> string \<Rightarrow> nat option \<Rightarrow> string \<Rightarrow> string option \<Rightarrow> row" where
  "data_init sc runname conc run_dir wrk_name =
     \<lparr>scenario = sc, run = runname, concurrency = conc, path = run_dir,
      avg_busy_ips = None, avg_idle_ips = None, samples_ips = None,
      avg_busy_waf = None, avg_idle_waf = None, samples_waf = None,
      row_requests_per_sec = None, row_p50 = None, row_p75 = None, row_p90 = None,
      row_p99 = None, row_raw_errors = None, row_socket_errors = None,
      row_transfer_per_sec = None, row_wrk_file = wrk_name\<rparr>"

text \<open>The block of a CPU slot (the same for both roles and both variants, up to the parser):
  the metric read, or an entry for the list \<^verbatim>\<open>missing\<close>.\<close>

definition cpu_slot :: "(string \<Rightarrow> cpu_metric option) \<Rightarrow> string \<Rightarrow> string \<Rightarrow> node option \<Rightarrow>
    error + (cpu_metric option \<times> string list)" where
  "cpu_slot parse run_dir role slot =
     (case slot of
        None \<Rightarrow> Inr (None, [run_dir @ ''/AVG_CPU_'' @ role @ ''_*.txt''])
      | Some f \<Rightarrow>
          (case read_text f of
             Inl e \<Rightarrow> Inl e
           | Inr text \<Rightarrow>
               (case parse text of
                  Some parsed \<Rightarrow> Inr (Some parsed, [])
                | None \<Rightarrow> Inr (None, [run_dir @ ''/'' @ nname f]))))"

definition wrk_slot :: "(string \<Rightarrow> wrk_metric) \<Rightarrow> string \<Rightarrow> node option \<Rightarrow>
    error + (wrk_metric option \<times> string list)" where
  "wrk_slot parse run_dir slot =
     (case slot of
        None \<Rightarrow> Inr (None, [run_dir @ ''/*wrk*.txt''])
      | Some f \<Rightarrow>
          (case read_text f of
             Inl e \<Rightarrow> Inl e
           | Inr text \<Rightarrow> Inr (Some (parse text), [])))"

definition set_ips :: "cpu_metric option \<Rightarrow> row \<Rightarrow> row" where
  "set_ips parsed data =
     (case parsed of
        None \<Rightarrow> data
      | Some p \<Rightarrow> data\<lparr>avg_busy_ips := busy p, avg_idle_ips := idle p, samples_ips := samples p\<rparr>)"

definition set_waf :: "cpu_metric option \<Rightarrow> row \<Rightarrow> row" where
  "set_waf parsed data =
     (case parsed of
        None \<Rightarrow> data
      | Some p \<Rightarrow> data\<lparr>avg_busy_waf := busy p, avg_idle_waf := idle p, samples_waf := samples p\<rparr>)"

definition set_wrk :: "wrk_metric option \<Rightarrow> row \<Rightarrow> row" where
  "set_wrk parsed data =
     (case parsed of
        None \<Rightarrow> data
      | Some w \<Rightarrow> data\<lparr>row_requests_per_sec := requests_per_sec w, row_p50 := p50 w,
                        row_p75 := p75 w, row_p90 := p90 w, row_p99 := p99 w,
                        row_raw_errors := raw_errors w, row_socket_errors := socket_errors w,
                        row_transfer_per_sec := transfer_per_sec w\<rparr>)"

text \<open>The three blocks in the order of the source: ips, waf, load test. An exception of
  one block ends the run, and with it the whole walk.\<close>

definition fill_row :: "(string \<Rightarrow> cpu_metric option) \<Rightarrow> (string \<Rightarrow> wrk_metric) \<Rightarrow> string \<Rightarrow>
    node option \<Rightarrow> node option \<Rightarrow> node option \<Rightarrow> row \<Rightarrow> error + (row \<times> string list)" where
  "fill_row parse_cpu parse_wrk run_dir avg_ips avg_waf wrk data =
     (case cpu_slot parse_cpu run_dir ''ips'' avg_ips of
        Inl e \<Rightarrow> Inl e
      | Inr (p_ips, m_ips) \<Rightarrow>
     (case cpu_slot parse_cpu run_dir ''waf'' avg_waf of
        Inl e \<Rightarrow> Inl e
      | Inr (p_waf, m_waf) \<Rightarrow>
     (case wrk_slot parse_wrk run_dir wrk of
        Inl e \<Rightarrow> Inl e
      | Inr (w, m_wrk) \<Rightarrow>
          Inr (set_wrk w (set_waf p_waf (set_ips p_ips data)), m_ips @ m_waf @ m_wrk))))"

definition collect_run :: "(string \<Rightarrow> rat option) \<Rightarrow> string \<Rightarrow> string \<Rightarrow> string \<Rightarrow> node list \<Rightarrow>
    error + (row \<times> string list)" where
  "collect_run py_float sc runname run_dir files =
     (let wrk_file = find_wrk files;
          (avg_ips, avg_waf) = find_avg files;
          conc = derive_concurrency files avg_ips wrk_file
      in fill_row parse_avg_cpu_file (parse_wrk_file py_float) run_dir avg_ips avg_waf wrk_file
           (data_init sc runname conc run_dir None))"

definition collect_run_report :: "(string \<Rightarrow> rat option) \<Rightarrow> string \<Rightarrow> string \<Rightarrow> string \<Rightarrow>
    node list \<Rightarrow> error + (row \<times> string list)" where
  "collect_run_report py_float sc runname run_dir files =
     (let wrk = find_wrk_report files;
          (avg_ips, avg_waf) = find_avg_report files;
          conc = derive_concurrency_report files wrk
      in fill_row parse_avg_cpu_file_report (parse_wrk_file_report py_float) run_dir
           avg_ips avg_waf wrk
           (data_init sc runname conc run_dir
              (case wrk of None \<Rightarrow> None | Some f \<Rightarrow> Some (run_dir @ ''/'' @ nname f))))"

subsection \<open>The walk\<close>

text \<open>
  \<^verbatim>\<open>collect_results\<close>: the scenarios of the root and the runs of each scenario, both
  sorted by name, entries that are not directories skipped; \<open>run_of\<close> is the body of the
  inner loop (\<open>collect_run\<close> or \<open>collect_run_report\<close>). The lists \<^verbatim>\<open>rows\<close> and
  \<^verbatim>\<open>missing\<close> are the state of the loops.
\<close>

type_synonym run_fun = "string \<Rightarrow> string \<Rightarrow> string \<Rightarrow> node list \<Rightarrow> error + (row \<times> string list)"

fun runs_loop :: "run_fun \<Rightarrow> string \<Rightarrow> string \<Rightarrow> node list \<Rightarrow> row list \<times> string list \<Rightarrow>
    error + (row list \<times> string list)" where
  "runs_loop run_of sc sc_dir [] acc = Inr acc"
| "runs_loop run_of sc sc_dir (File n t # ns) acc = runs_loop run_of sc sc_dir ns acc"
| "runs_loop run_of sc sc_dir (Dir runname files # ns) acc =
     (case run_of sc runname (sc_dir @ ''/'' @ runname) files of
        Inl e \<Rightarrow> Inl e
      | Inr (data, ms) \<Rightarrow> runs_loop run_of sc sc_dir ns (fst acc @ [data], snd acc @ ms))"

fun scenarios_loop :: "run_fun \<Rightarrow> string \<Rightarrow> node list \<Rightarrow> row list \<times> string list \<Rightarrow>
    error + (row list \<times> string list)" where
  "scenarios_loop run_of root_path [] acc = Inr acc"
| "scenarios_loop run_of root_path (File n t # ns) acc = scenarios_loop run_of root_path ns acc"
| "scenarios_loop run_of root_path (Dir sc runs # ns) acc =
     (case runs_loop run_of sc (root_path @ ''/'' @ sc) (sort_key nname runs) acc of
        Inl e \<Rightarrow> Inl e
      | Inr acc' \<Rightarrow> scenarios_loop run_of root_path ns acc')"

definition collect_results :: "(string \<Rightarrow> rat option) \<Rightarrow> string \<Rightarrow> node list \<Rightarrow>
    error + (row list \<times> string list)" where
  "collect_results py_float root_path entries =
     scenarios_loop (collect_run py_float) root_path (sort_key nname entries) ([], [])"

definition collect_results_report :: "(string \<Rightarrow> rat option) \<Rightarrow> string \<Rightarrow> node list \<Rightarrow>
    error + (row list \<times> string list)" where
  "collect_results_report py_float root_path entries =
     scenarios_loop (collect_run_report py_float) root_path (sort_key nname entries) ([], [])"

section \<open>The Reporter: \<^verbatim>\<open>custom_order\<close>\<close>

text \<open>
  A data frame is the list of its rows in order, each with its index label. The column
  \<^verbatim>\<open>concurrency\<close> has been made numeric before (\<open>None\<close> is NaN, equal to no number).
  A boolean mask keeps the rows where it holds, in their order; \<^verbatim>\<open>index.isin\<close> compares
  index labels.
\<close>

type_synonym frame = "(nat \<times> row) list"

definition index :: "frame \<Rightarrow> nat list" where
  "index df = map fst df"

definition noinj_rows :: "frame \<Rightarrow> frame" where
  "noinj_rows df = filter (\<lambda>(i, r). scenario r = ''NO INJECTION'') df"

definition conc_rows :: "nat \<Rightarrow> frame \<Rightarrow> frame" where
  "conc_rows n df =
     filter (\<lambda>(i, r). concurrency r = Some n \<and> scenario r \<noteq> ''NO INJECTION'') df"

definition rest_rows :: "frame \<Rightarrow> frame" where
  "rest_rows df =
     filter (\<lambda>(i, r). i \<notin> set (index (noinj_rows df) @ index (conc_rows 300 df)
                                  @ index (conc_rows 500 df) @ index (conc_rows 1000 df))) df"

definition custom_order :: "frame \<Rightarrow> frame" where
  "custom_order df =
     (let noinj = noinj_rows df;
          c300 = conc_rows 300 df;
          c500 = conc_rows 500 df;
          c1000 = conc_rows 1000 df;
          rest = rest_rows df
      in noinj @ c300 @ c500 @ c1000 @ rest)"

text \<open>A frame of six runs, used to evaluate the order.\<close>

definition run_row :: "string \<Rightarrow> nat option \<Rightarrow> row" where
  "run_row sc conc = data_init sc ''run 1'' conc ''results'' None"

definition frame6 :: frame where
  "frame6 = [(0, run_row ''INJ_WEB'' (Some 1000)), (1, run_row ''INJ_WEB'' (Some 300)),
             (2, run_row ''NO INJECTION'' (Some 300)), (3, run_row ''INJ_WAF_WEB'' (Some 500)),
             (4, run_row ''INJ_WAF_WEB'' None), (5, run_row ''INJ_IPS_WEB'' (Some 300))]"

section \<open>Example inputs\<close>

definition newline :: string where
  "newline = [CHR 0x0A]"

text \<open>A load-test log with the three percentiles on one line, then one per line, and a 99\%
  figure that is not at the start of its line.\<close>

definition wrk_text_both :: string where
  "wrk_text_both = ''x 50% 5ms 75% 6ms 90% 7ms'' @ newline @ ''50% 1ms'' @ newline
     @ ''75% 2ms'' @ newline @ ''90% 3ms'' @ newline @ ''x 99% 5ms''"

text \<open>The built-in \<^verbatim>\<open>float\<close> restricted to the texts the examples give it: it raises on
  each of them.\<close>

definition float_raises :: "string \<Rightarrow> rat option" where
  "float_raises s = None"


definition cpu_log_500 :: node where
  "cpu_log_500 = File ''AVG_CPU_ips_500.txt'' ''AVG busy (all cpus) = 22.51 % (avg idle=77.49%) over 2010 samples''"

definition cpu_log_12 :: node where
  "cpu_log_12 = File ''AVG_CPU_ips_12.txt'' ''AVG busy (all cpus) = 22.51 % (avg idle=77.49%) over 2010 samples''"

text \<open>A results tree with one scenario and two runs: the first run holds nothing but a
  directory named like a CPU log, the second a CPU log and a load-test log.\<close>

definition wrk_log_500 :: node where
  "wrk_log_500 = File ''wrk_via_waf_c500.txt'' (''Requests/sec: 523.40'' @ newline @ ''  50%   65.54ms'')"

definition results_tree :: "node list" where
  "results_tree = [Dir ''INJ_WEB'' [Dir ''run 1'' [Dir ''AVG_CPU_ips_500'' []],
                                      Dir ''run 2'' [cpu_log_500, wrk_log_500]]]"



text \<open>A CPU log with its clauses on three lines, and one with a remark between the busy and
  the idle clause.\<close>

definition cpu_text_lines :: string where
  "cpu_text_lines = ''AVG busy (all cpus) = 11.75 %'' @ newline @ ''(avg idle=88.25%)'' @ newline
     @ ''over 1990 samples''"

definition cpu_text_remark :: string where
  "cpu_text_remark = ''AVG busy (all cpus) = 11.75 % (was =3%) (avg idle=88.25%) over 1990 samples''"


section \<open>What a pattern matches\<close>

text \<open>
  The matches of a pattern, stated without the search order: \<open>rmc fl r p u v c c'\<close> holds
  when \<open>r\<close> can match the text \<open>u\<close> that follows the character \<open>p\<close> and is followed by
  \<open>v\<close>, taking the groups from \<open>c\<close> to \<open>c'\<close>. The matcher finds a match whenever there
  is one, and whatever it returns is one.
\<close>

definition lastp :: "char option \<Rightarrow> string \<Rightarrow> char option" where
  "lastp p u = (if u = [] then p else Some (last u))"

definition upto_max :: "nat option \<Rightarrow> nat \<Rightarrow> bool" where
  "upto_max hi n = (case hi of None \<Rightarrow> True | Some h \<Rightarrow> n \<le> h)"

fun rmc :: "flags \<Rightarrow> regex \<Rightarrow> char option \<Rightarrow> string \<Rightarrow> string \<Rightarrow> caps \<Rightarrow> caps \<Rightarrow> bool" where
  "rmc fl (Lit l) p u v c c' = (list_all2 (ceq fl) l u \<and> c' = c)"
| "rmc fl (Rep cs lo hi) p u v c c' =
     (list_all (cmem fl cs) u \<and> lo \<le> length u \<and> upto_max hi (length u) \<and> c' = c)"
| "rmc fl (Seq a b) p u v c c' =
     (\<exists>u1 u2 c1. u = u1 @ u2 \<and> rmc fl a p u1 (u2 @ v) c c1 \<and> rmc fl b (lastp p u1) u2 v c1 c')"
| "rmc fl (Alt a b) p u v c c' = (rmc fl a p u v c c' \<or> rmc fl b p u v c c')"
| "rmc fl (Opt a) p u v c c' = (rmc fl a p u v c c' \<or> (u = [] \<and> c' = c))"
| "rmc fl (Group n a) p u v c c' = (\<exists>c1. rmc fl a p u v c c1 \<and> c' = c1(n \<mapsto> u))"
| "rmc fl Eps p u v c c' = (u = [] \<and> c' = c)"
| "rmc fl Bol p u v c c' =
     (u = [] \<and> c' = c \<and> (p = None \<or> (multiline fl \<and> p = Some (CHR 0x0A))))"
| "rmc fl (NotBehind cs) p u v c c' =
     (u = [] \<and> c' = c \<and> (case p of None \<Rightarrow> True | Some x \<Rightarrow> \<not> cmem fl cs x))"
| "rmc fl (NotAhead cs) p u v c c' =
     (u = [] \<and> c' = c \<and> (case v of [] \<Rightarrow> True | x # _ \<Rightarrow> \<not> cmem fl cs x))"


text \<open>The shape of the tokens the patterns capture: a digit string, and a decimal number
  (digits, optionally a dot and digits).\<close>

definition is_digits :: "string \<Rightarrow> bool" where
  "is_digits s = (s \<noteq> [] \<and> list_all is_digit s)"

definition is_decimal :: "string \<Rightarrow> bool" where
  "is_decimal s =
     (let ip = takeWhile is_digit s; r = dropWhile is_digit s
      in ip \<noteq> [] \<and> (r = [] \<or> (hd r = CHR ''.'' \<and> is_digits (tl r))))"

text \<open>A unit suffix as the pattern of \<^verbatim>\<open>convert_to_seconds\<close> reads it under the flags \<open>fl\<close>.\<close>

definition is_unit :: "flags \<Rightarrow> string \<Rightarrow> bool" where
  "is_unit fl u = (list_all2 (ceq fl) ''ms'' u \<or> list_all2 (ceq fl) ''s'' u
     \<or> list_all2 (ceq fl) ''us'' u)"


text \<open>An idle clause in a CPU log: "avg idle" in any letter case, "=", the decimal \<open>I\<close> and
  "%", with optional whitespace between them.\<close>

definition idle_token :: "string \<Rightarrow> string \<Rightarrow> bool" where
  "idle_token text I \<longleftrightarrow>
     (\<exists>pre a w1 w2 w3 post. text = pre @ a @ w1 @ ''='' @ w2 @ I @ w3 @ ''%'' @ post
        \<and> lower a = ''avg idle'' \<and> list_all is_space w1 \<and> list_all is_space w2
        \<and> list_all is_space w3 \<and> is_decimal I)"

text \<open>
  The number a pattern reads in a file name, the number the concurrency scan reads in it, and
  the test the scan applies. A standalone number of a name is a run of two to five digits
  with no digit before or after it; \<open>pre\<close> is the part of the name before it.
\<close>

definition name_number :: "regex \<Rightarrow> string \<Rightarrow> nat option" where
  "name_number pat name = map_option (\<lambda>m. int_of_digits (group m 1)) (re_search no_flags pat name)"

definition first_number :: "string \<Rightarrow> nat option" where
  "first_number name = name_number conc_pat name"

definition accepted :: "nat \<Rightarrow> bool" where
  "accepted n = (n = 50 \<or> 100 \<le> n)"

definition standalone_at :: "string \<Rightarrow> string \<Rightarrow> string \<Rightarrow> bool" where
  "standalone_at name pre d \<longleftrightarrow>
     (\<exists>post. name = pre @ d @ post \<and> list_all is_digit d \<and> 2 \<le> length d \<and> length d \<le> 5
        \<and> (pre = [] \<or> \<not> is_digit (last pre)) \<and> (post = [] \<or> \<not> is_digit (hd post)))"



text \<open>
  The richest CPU-log pattern in a text: "AVG busy", "=", the decimal \<open>B\<close>, "%", "avg idle",
  "=", the decimal \<open>I\<close>, "%", "over", the digits \<open>S\<close>, "samples", the words in any letter
  case, with optional whitespace around the numbers and with arbitrary noise \<open>pre\<close>,
  \<open>n1\<close>, \<open>n2\<close>, \<open>n3\<close>, \<open>post\<close> (line breaks included) between the clauses.
\<close>

definition cpu_line_parts :: "string \<Rightarrow> string \<Rightarrow> string \<Rightarrow> string \<Rightarrow>
    string \<Rightarrow> string \<Rightarrow> string \<Rightarrow> string \<Rightarrow> string \<Rightarrow> bool" where
  "cpu_line_parts text B I S pre n1 n2 n3 post \<longleftrightarrow>
     (\<exists>a w1 w2 i w3 w4 w5 ov w6 w7 sm.
        text = pre @ a @ n1 @ ''='' @ w1 @ B @ w2 @ ''%'' @ n2 @ i @ w3 @ ''='' @ w4 @ I @ w5
                 @ ''%'' @ n3 @ ov @ w6 @ S @ w7 @ sm @ post
        \<and> lower a = ''avg busy'' \<and> lower i = ''avg idle'' \<and> lower ov = ''over''
        \<and> lower sm = ''samples''
        \<and> list_all is_space w1 \<and> list_all is_space w2 \<and> list_all is_space w3
        \<and> list_all is_space w4 \<and> list_all is_space w5 \<and> list_all is_space w6
        \<and> list_all is_space w7
        \<and> is_decimal B \<and> is_decimal I \<and> is_digits S)"

definition cpu_line :: "string \<Rightarrow> string \<Rightarrow> string \<Rightarrow> string \<Rightarrow> bool" where
  "cpu_line text B I S \<longleftrightarrow> (\<exists>pre n1 n2 n3 post. cpu_line_parts text B I S pre n1 n2 n3 post)"

section \<open>The matcher against the matches of a pattern\<close>

lemma lastp_Nil [simp]: "lastp p [] = p"
  by (simp add: lastp_def)

lemma lastp_Cons [simp]: "lastp p (x # xs) = lastp (Some x) xs"
  by (simp add: lastp_def)

lemma lastp_append [simp]: "lastp p (u @ w) = lastp (lastp p u) w"
  by (simp add: lastp_def)

lemma lit_complete:
  "list_all2 (ceq fl) l u \<Longrightarrow> lit fl l k p (u @ v) = k (lastp p u) v"
proof (induction l arbitrary: u p)
  case Nil
  then show ?case by simp
next
  case (Cons a l)
  then obtain x xs where u: "u = x # xs" and ax: "ceq fl a x" and r: "list_all2 (ceq fl) l xs"
    by (auto simp: list_all2_Cons1)
  show ?case using Cons.IH [OF r] ax by (simp add: u)
qed

lemma lit_sound:
  "lit fl l k p s = Some x \<Longrightarrow>
     \<exists>u v. s = u @ v \<and> list_all2 (ceq fl) l u \<and> k (lastp p u) v = Some x"
proof (induction l arbitrary: s p)
  case Nil
  then show ?case by auto
next
  case (Cons a l)
  then obtain y ys where s: "s = y # ys" by (cases s) auto
  with Cons.prems have ay: "ceq fl a y" and rest: "lit fl l k (Some y) ys = Some x"
    by (auto split: if_splits)
  from Cons.IH [OF rest] obtain u v where
    "ys = u @ v" "list_all2 (ceq fl) l u" "k (lastp (Some y) u) v = Some x" by blast
  then have "s = (y # u) @ v \<and> list_all2 (ceq fl) (a # l) (y # u) \<and> k (lastp p (y # u)) v = Some x"
    using s ay by simp
  then show ?case by blast
qed

lemma rep_sound:
  "rep P lo hi i k p s = Some x \<Longrightarrow> upto_max hi i \<Longrightarrow>
     \<exists>u v. s = u @ v \<and> list_all P u \<and> lo \<le> i + length u \<and> upto_max hi (i + length u)
       \<and> k (lastp p u) v = Some x"
proof (induction s arbitrary: i p)
  case Nil
  then show ?case by (auto split: if_splits)
next
  case (Cons y ys)
  show ?case
  proof (cases "P y \<and> (case hi of None \<Rightarrow> True | Some h \<Rightarrow> i < h) \<and> rep P lo hi (Suc i) k (Some y) ys = Some x")
    case True
    then have "upto_max hi (Suc i)" by (auto simp: upto_max_def split: option.splits)
    with Cons.IH [of "Suc i" "Some y"] True obtain u v where
      "ys = u @ v" "list_all P u" "lo \<le> Suc i + length u" "upto_max hi (Suc i + length u)"
      "k (lastp (Some y) u) v = Some x" by blast
    then have "y # ys = (y # u) @ v \<and> list_all P (y # u) \<and> lo \<le> i + length (y # u)
       \<and> upto_max hi (i + length (y # u)) \<and> k (lastp p (y # u)) v = Some x"
      using True by simp
    then show ?thesis by blast
  next
    case False
    with Cons.prems have "lo \<le> i" and "k p (y # ys) = Some x"
      by (auto split: if_splits option.splits)
    then have "y # ys = [] @ (y # ys) \<and> list_all P [] \<and> lo \<le> i + length ([]::string)
       \<and> upto_max hi (i + length ([]::string)) \<and> k (lastp p []) (y # ys) = Some x"
      using Cons.prems(2) by simp
    then show ?thesis by blast
  qed
qed


lemma rep_complete:
  "list_all P u \<Longrightarrow> lo \<le> i + length u \<Longrightarrow> upto_max hi (i + length u) \<Longrightarrow>
   k (lastp p u) v = Some x \<Longrightarrow> \<exists>y. rep P lo hi i k p (u @ v) = Some y"
proof (induction u arbitrary: i p)
  case Nil
  then show ?case by (cases v) (auto split: option.splits)
next
  case (Cons a u)
  from Cons.prems have "\<exists>y. rep P lo hi (Suc i) k (Some a) (u @ v) = Some y"
    by (intro Cons.IH) auto
  moreover from Cons.prems have "P a" and "case hi of None \<Rightarrow> True | Some h \<Rightarrow> i < h"
    by (auto simp: upto_max_def split: option.splits)
  ultimately show ?case by auto
qed

lemma rep_greedy:
  "list_all P u \<Longrightarrow> lo \<le> i + length u \<Longrightarrow> upto_max hi (i + length u) \<Longrightarrow>
   v = [] \<or> \<not> P (hd v) \<or> hi = Some (i + length u) \<Longrightarrow>
   k (lastp p u) v = Some x \<Longrightarrow> rep P lo hi i k p (u @ v) = Some x"
proof (induction u arbitrary: i p)
  case Nil
  then show ?case by (cases v) (auto split: option.splits)
next
  case (Cons a u)
  from Cons.prems have "rep P lo hi (Suc i) k (Some a) (u @ v) = Some x"
    by (intro Cons.IH) auto
  moreover from Cons.prems have "P a" and "case hi of None \<Rightarrow> True | Some h \<Rightarrow> i < h"
    by (auto simp: upto_max_def split: option.splits)
  ultimately show ?case by auto
qed

lemma rmatch_sound:
  "rmatch fl r k p s c = Some x \<Longrightarrow>
     \<exists>u v c'. s = u @ v \<and> rmc fl r p u v c c' \<and> k (lastp p u) v c' = Some x"
proof (induction r arbitrary: k p s c)
  case (Lit l)
  then show ?case by (auto dest: lit_sound)
next
  case (Rep cs lo hi)
  then have "rep (cmem fl cs) lo hi 0 (\<lambda>p' s'. k p' s' c) p s = Some x" by simp
  from rep_sound [OF this] show ?case by (auto simp: upto_max_def split: option.splits)
next
  case (Seq a b)
  from Seq.prems have "rmatch fl a (\<lambda>p' s' c'. rmatch fl b k p' s' c') p s c = Some x" by simp
  from Seq.IH(1) [OF this] obtain u1 v1 c1 where
    a: "s = u1 @ v1" "rmc fl a p u1 v1 c c1" and b: "rmatch fl b k (lastp p u1) v1 c1 = Some x"
    by blast
  from Seq.IH(2) [OF b] obtain u2 v c' where
    "v1 = u2 @ v" "rmc fl b (lastp p u1) u2 v c1 c'" "k (lastp (lastp p u1) u2) v c' = Some x"
    by blast
  with a have "s = (u1 @ u2) @ v \<and> rmc fl (Seq a b) p (u1 @ u2) v c c'
      \<and> k (lastp p (u1 @ u2)) v c' = Some x"
    by auto
  then show ?case by blast
next
  case (Alt a b)
  show ?case
  proof (cases "rmatch fl a k p s c")
    case None
    with Alt.prems have "rmatch fl b k p s c = Some x" by simp
    from Alt.IH(2) [OF this] obtain u v c' where
      "s = u @ v" "rmc fl b p u v c c'" "k (lastp p u) v c' = Some x" by blast
    then have "s = u @ v \<and> rmc fl (Alt a b) p u v c c' \<and> k (lastp p u) v c' = Some x" by simp
    then show ?thesis by blast
  next
    case (Some y)
    with Alt.prems have "rmatch fl a k p s c = Some x" by simp
    from Alt.IH(1) [OF this] obtain u v c' where
      "s = u @ v" "rmc fl a p u v c c'" "k (lastp p u) v c' = Some x" by blast
    then have "s = u @ v \<and> rmc fl (Alt a b) p u v c c' \<and> k (lastp p u) v c' = Some x" by simp
    then show ?thesis by blast
  qed
next
  case (Opt a)
  show ?case
  proof (cases "rmatch fl a k p s c")
    case None
    with Opt.prems have "k p s c = Some x" by simp
    then have "s = [] @ s \<and> rmc fl (Opt a) p [] s c c \<and> k (lastp p []) s c = Some x" by simp
    then show ?thesis by blast
  next
    case (Some y)
    with Opt.prems have "rmatch fl a k p s c = Some x" by simp
    from Opt.IH [OF this] obtain u v c' where
      "s = u @ v" "rmc fl a p u v c c'" "k (lastp p u) v c' = Some x" by blast
    then have "s = u @ v \<and> rmc fl (Opt a) p u v c c' \<and> k (lastp p u) v c' = Some x" by simp
    then show ?thesis by blast
  qed
next
  case (Group n a)
  from Group.prems
  have "rmatch fl a (\<lambda>p' s' c'. k p' s' (c'(n \<mapsto> take (length s - length s') s))) p s c = Some x"
    by simp
  from Group.IH [OF this] obtain u v c1 where
    "s = u @ v" "rmc fl a p u v c c1" "k (lastp p u) v (c1(n \<mapsto> take (length s - length v) s)) = Some x"
    by blast
  then have "s = u @ v \<and> rmc fl (Group n a) p u v c (c1(n \<mapsto> u)) \<and> k (lastp p u) v (c1(n \<mapsto> u)) = Some x"
    by auto
  then show ?case by blast
next
  case Eps
  then show ?case by auto
next
  case Bol
  then show ?case by (auto split: if_splits)
next
  case (NotBehind cs)
  then show ?case by (auto split: option.splits if_splits)
next
  case (NotAhead cs)
  then show ?case by (auto split: list.splits if_splits)
qed

lemma rmatch_complete:
  "rmc fl r p u v c c' \<Longrightarrow> k (lastp p u) v c' = Some x \<Longrightarrow>
     \<exists>y. rmatch fl r k p (u @ v) c = Some y"
proof (induction r arbitrary: k p u v c c' x)
  case (Lit l)
  then show ?case by (simp add: lit_complete)
next
  case (Rep cs lo hi)
  from Rep.prems have "list_all (cmem fl cs) u" "lo \<le> 0 + length u" "upto_max hi (0 + length u)"
    and "(\<lambda>p' s'. k p' s' c) (lastp p u) v = Some x"
    by auto
  from rep_complete [of "cmem fl cs" u lo 0 hi "\<lambda>p' s'. k p' s' c" p v x, OF this]
  show ?case by simp
next
  case (Seq a b)
  from Seq.prems obtain u1 u2 c1 where u: "u = u1 @ u2"
    and a: "rmc fl a p u1 (u2 @ v) c c1" and b: "rmc fl b (lastp p u1) u2 v c1 c'"
    by auto
  from Seq.prems(2) have "k (lastp (lastp p u1) u2) v c' = Some x" by (simp add: u)
  from Seq.IH(2) [of "lastp p u1" u2 v c1 c' k x, OF b this]
  obtain y where "rmatch fl b k (lastp p u1) (u2 @ v) c1 = Some y" ..
  from Seq.IH(1) [of p u1 "u2 @ v" c c1 "\<lambda>p' s' c'. rmatch fl b k p' s' c'" y, OF a this]
  show ?case by (simp add: u)
next
  case (Alt a b)
  show ?case
  proof (cases "rmatch fl a k p (u @ v) c")
    case None
    have "\<not> rmc fl a p u v c c'"
    proof
      assume "rmc fl a p u v c c'"
      from Alt.IH(1) [of p u v c c' k x, OF this Alt.prems(2)] None show False by simp
    qed
    with Alt.prems(1) have "rmc fl b p u v c c'" by simp
    from Alt.IH(2) [of p u v c c' k x, OF this Alt.prems(2)] None show ?thesis by simp
  next
    case (Some y)
    then show ?thesis by simp
  qed
next
  case (Opt a)
  show ?case
  proof (cases "rmatch fl a k p (u @ v) c")
    case None
    have "\<not> rmc fl a p u v c c'"
    proof
      assume "rmc fl a p u v c c'"
      from Opt.IH [of p u v c c' k x, OF this Opt.prems(2)] None show False by simp
    qed
    with Opt.prems(1) have "u = []" "c' = c" by simp_all
    with Opt.prems(2) None show ?thesis by simp
  next
    case (Some y)
    then show ?thesis by simp
  qed
next
  case (Group n a)
  from Group.prems obtain c1 where a: "rmc fl a p u v c c1" and c': "c' = c1(n \<mapsto> u)" by auto
  have "(\<lambda>p' s' c'. k p' s' (c'(n \<mapsto> take (length (u @ v) - length s') (u @ v)))) (lastp p u) v c1 = Some x"
  proof -
    have "k (lastp p u) v (c1(n \<mapsto> u)) = Some x" using Group.prems(2) unfolding c' .
    then show ?thesis by simp
  qed
  from Group.IH [of p u v c c1 "\<lambda>p' s' c'. k p' s' (c'(n \<mapsto> take (length (u @ v) - length s') (u @ v)))" x,
    OF a this] show ?case by simp
next
  case Eps
  then show ?case by auto
next
  case Bol
  then show ?case by auto
next
  case (NotBehind cs)
  then show ?case by (auto split: option.splits)
next
  case (NotAhead cs)
  then show ?case by (auto split: list.splits)
qed

lemma search_from_sound:
  "search_from fl r p s = Some c \<Longrightarrow>
     \<exists>pre u v. s = pre @ u @ v \<and> rmc fl r (lastp p pre) u v Map.empty c"
proof (induction s arbitrary: p)
  case Nil
  then have "rmatch fl r (\<lambda>p' s' c'. Some c') p [] Map.empty = Some c" by simp
  from rmatch_sound [OF this] obtain u v where "[] = u @ v" "rmc fl r p u v Map.empty c" by auto
  then have "[] = [] @ u @ v \<and> rmc fl r (lastp p []) u v Map.empty c" by simp
  then show ?case by blast
next
  case (Cons y ys)
  show ?case
  proof (cases "rmatch fl r (\<lambda>p' s' c'. Some c') p (y # ys) Map.empty")
    case None
    with Cons.prems have "search_from fl r (Some y) ys = Some c" by simp
    from Cons.IH [OF this] obtain pre u v where
      "ys = pre @ u @ v" "rmc fl r (lastp (Some y) pre) u v Map.empty c" by blast
    then have "y # ys = (y # pre) @ u @ v \<and> rmc fl r (lastp p (y # pre)) u v Map.empty c" by simp
    then show ?thesis by blast
  next
    case (Some d)
    with Cons.prems have "rmatch fl r (\<lambda>p' s' c'. Some c') p (y # ys) Map.empty = Some c" by simp
    from rmatch_sound [OF this] obtain u v where
      "y # ys = u @ v" "rmc fl r p u v Map.empty c" by auto
    then have "y # ys = [] @ u @ v \<and> rmc fl r (lastp p []) u v Map.empty c" by simp
    then show ?thesis by blast
  qed
qed

lemma search_from_complete:
  "rmc fl r (lastp p pre) u v Map.empty c \<Longrightarrow> \<exists>d. search_from fl r p (pre @ u @ v) = Some d"
proof (induction pre arbitrary: p)
  case Nil
  then have "\<exists>y. rmatch fl r (\<lambda>p' s' c'. Some c') p (u @ v) Map.empty = Some y"
    by (intro rmatch_complete [where c' = c]) auto
  then show ?case by (cases "u @ v") auto
next
  case (Cons y pre)
  then have "\<exists>d. search_from fl r (Some y) (pre @ u @ v) = Some d" by (intro Cons.IH) simp
  then show ?case by (auto split: option.splits)
qed

lemma re_search_sound:
  "re_search fl r s = Some c \<Longrightarrow>
     \<exists>pre u v. s = pre @ u @ v \<and> rmc fl r (lastp None pre) u v Map.empty c"
  unfolding re_search_def by (rule search_from_sound)

lemma re_search_complete:
  "rmc fl r (lastp None pre) u v Map.empty c \<Longrightarrow> \<exists>d. re_search fl r (pre @ u @ v) = Some d"
  unfolding re_search_def by (rule search_from_complete)

section \<open>Binary floating point\<close>

text \<open>The exponent brackets the number, and \<open>double\<close> and \<open>round2\<close> return a nearest
  number of their grid.\<close>

lemma bit_length_pos: "0 < n \<Longrightarrow> 0 < bit_length n"
  by (subst bit_length.simps) simp

lemma bit_length_bounds:
  "0 < n \<Longrightarrow> 2 ^ (bit_length n - 1) \<le> n \<and> n < 2 ^ bit_length n"
proof (induction n rule: bit_length.induct)
  case (1 n)
  from 1(2) have b: "bit_length n = Suc (bit_length (n div 2))"
    by (subst bit_length.simps) simp
  show ?case
  proof (cases "0 < n div 2")
    case False
    with 1(2) have "n = 1" by presburger
    then show ?thesis by (simp add: b) (simp add: bit_length.simps)
  next
    case True
    with 1 have ih: "2 ^ (bit_length (n div 2) - 1) \<le> n div 2" "n div 2 < 2 ^ bit_length (n div 2)"
      by simp_all
    from bit_length_pos [OF True] obtain c where c: "bit_length (n div 2) = Suc c"
      by (cases "bit_length (n div 2)") simp_all
    from ih have "2 ^ c \<le> n div 2" "n div 2 < 2 * 2 ^ c" by (simp_all add: c)
    then have "2 * 2 ^ c \<le> n" "n < 2 * (2 * 2 ^ c)" by presburger+
    then show ?thesis by (simp add: b c)
  qed
qed

lemma pow2_pos: "0 < pow2 k"
  by (simp add: pow2_def)

lemma pow2_Suc: "pow2 (k + 1) = 2 * pow2 k"
proof (cases "0 \<le> k")
  case True
  then have "nat (k + 1) = Suc (nat k)" by simp
  with True show ?thesis by (simp add: pow2_def)
next
  case False
  then have "nat (- k) = Suc (nat (- (k + 1)))" by simp
  with False show ?thesis by (cases "k + 1 = 0") (simp_all add: pow2_def)
qed

lemma pow2_nat: "pow2 (int n) = 2 ^ n"
  by (simp add: pow2_def)

lemma pow2_neg: "pow2 (- int n) = 1 / 2 ^ n"
  by (cases n) (simp_all add: pow2_def nat_add_distrib)

lemma exponent_bounds:
  assumes "0 < a"
  shows "pow2 (exponent a) \<le> a \<and> a < pow2 (exponent a + 1)"
proof (cases "1 \<le> a")
  case True
  then have f: "0 < \<lfloor>a\<rfloor>" by simp
  from bit_length_pos [OF f] obtain c where c: "bit_length \<lfloor>a\<rfloor> = Suc c"
    by (cases "bit_length \<lfloor>a\<rfloor>") simp_all
  from bit_length_bounds [OF f] have l: "2 ^ c \<le> \<lfloor>a\<rfloor>" and u: "\<lfloor>a\<rfloor> < 2 * 2 ^ c"
    by (simp_all add: c)
  from l have "of_int (2 ^ c) \<le> a" by (simp only: le_floor_iff)
  moreover from u have "a < of_int (2 * 2 ^ c)" by (simp only: floor_less_iff)
  moreover have "exponent a = int c" using True by (simp add: exponent_def c)
  ultimately show ?thesis by (simp add: pow2_Suc pow2_nat)
next
  case False
  with assms have i: "1 < 1 / a" by simp
  let ?M = "\<lceil>1 / a\<rceil> - 1"
  from i have m: "0 < ?M" by linarith
  from bit_length_pos [OF m] obtain c where c: "bit_length ?M = Suc c"
    by (cases "bit_length ?M") simp_all
  from bit_length_bounds [OF m] have "2 ^ c < \<lceil>1 / a\<rceil>" and "\<lceil>1 / a\<rceil> \<le> 2 * 2 ^ c"
    by (simp_all add: c)
  then have "of_int (2 ^ c) < 1 / a" and "1 / a \<le> of_int (2 * 2 ^ c)"
    by (simp_all only: less_ceiling_iff ceiling_le_iff)
  then have "2 ^ c < 1 / a" and "1 / a \<le> 2 * 2 ^ c" by simp_all
  with assms have "a < 1 / 2 ^ c" and "1 / (2 * 2 ^ c) \<le> a"
    by (simp_all add: field_simps)
  moreover have "exponent a = - int (Suc c)" using False by (simp add: exponent_def c)
  moreover have "pow2 (- int (Suc c) + 1) = 1 / 2 ^ c" using pow2_neg [of c] by simp
  moreover have "pow2 (- int (Suc c)) = 1 / (2 * 2 ^ c)" using pow2_neg [of "Suc c"] by simp
  ultimately show ?thesis by simp
qed

lemma round_half_even_nearest: "\<bar>of_int (round_half_even y) - y\<bar> \<le> 1 / 2"
proof -
  have a: "of_int \<lfloor>y\<rfloor> \<le> y" "y < of_int \<lfloor>y\<rfloor> + 1" by linarith+
  consider "y - of_int \<lfloor>y\<rfloor> < 1 / 2" | "1 / 2 < y - of_int \<lfloor>y\<rfloor>" | "y - of_int \<lfloor>y\<rfloor> = 1 / 2"
    by linarith
  then show ?thesis
  proof cases
    case 1
    then have "round_half_even y = \<lfloor>y\<rfloor>" by (simp add: round_half_even_def)
    with 1 a show ?thesis by simp
  next
    case 2
    then have "round_half_even y = \<lfloor>y\<rfloor> + 1" by (simp add: round_half_even_def)
    with 2 a show ?thesis by simp
  next
    case 3
    then have "round_half_even y = \<lfloor>y\<rfloor> \<or> round_half_even y = \<lfloor>y\<rfloor> + 1"
      by (simp add: round_half_even_def Let_def)
    with 3 show ?thesis by auto
  qed
qed

lemma round2_nearest: "\<bar>round2 x - x\<bar> \<le> 1 / 200"
proof -
  define z where "z = of_int (round_half_even (x * 100)) - x * 100"
  have "\<bar>z\<bar> \<le> 1 / 2" unfolding z_def by (rule round_half_even_nearest)
  moreover have "round2 x - x = z / 100" by (simp add: round2_def z_def field_simps)
  then have "\<bar>round2 x - x\<bar> = \<bar>z\<bar> / \<bar>100\<bar>" by (simp only: abs_divide)
  ultimately show ?thesis by simp
qed

lemma double_nearest:
  "\<bar>double q - q\<bar> \<le> pow2 (max (exponent \<bar>q\<bar> - 52) (- 1074)) / 2"
proof (cases "q = 0")
  case True
  then show ?thesis using pow2_pos [of "max (exponent \<bar>q\<bar> - 52) (- 1074)"] by (simp add: double_def)
next
  case False
  define p where "p = max (exponent \<bar>q\<bar> - 52) (- 1074)"
  define m where "m = round_half_even (\<bar>q\<bar> / pow2 p)"
  define x where "x = of_int m - \<bar>q\<bar> / pow2 p"
  have P: "0 < pow2 p" by (rule pow2_pos)
  have d: "double q = sgn q * of_int m * pow2 p"
    using False by (simp add: double_def Let_def p_def m_def)
  have "\<bar>x\<bar> \<le> 1 / 2" unfolding x_def m_def by (rule round_half_even_nearest)
  then have "\<bar>x\<bar> * pow2 p \<le> 1 / 2 * pow2 p"
    using P by (intro mult_right_mono) simp_all
  moreover have "\<bar>x\<bar> * pow2 p = \<bar>x * pow2 p\<bar>" using P by (simp add: abs_mult)
  moreover have "x * pow2 p = of_int m * pow2 p - \<bar>q\<bar>"
    using P by (simp add: x_def field_simps)
  moreover have "\<bar>sgn q * of_int m * pow2 p - q\<bar> = \<bar>of_int m * pow2 p - \<bar>q\<bar>\<bar>"
  proof (cases "0 < q")
    case True
    then show ?thesis by simp
  next
    case n: False
    have "- (of_int m * pow2 p) - q = - (of_int m * pow2 p + q)" by simp
    then have "\<bar>- (of_int m * pow2 p) - q\<bar> = \<bar>of_int m * pow2 p + q\<bar>"
      by (simp only: abs_minus)
    with n False show ?thesis by simp
  qed
  ultimately show ?thesis unfolding d p_def [symmetric] by simp
qed

section \<open>Tokens: digits, decimals, letters\<close>

lemma not_digit_dot [simp]: "\<not> is_digit CHR ''.''"
  by (simp add: is_digit_def)

lemma is_decimal_iff:
  "is_decimal s \<longleftrightarrow>
     is_digits s \<or> (\<exists>ip fp. s = ip @ CHR ''.'' # fp \<and> is_digits ip \<and> is_digits fp)"
proof
  assume d: "is_decimal s"
  let ?ip = "takeWhile is_digit s" and ?r = "dropWhile is_digit s"
  have s: "s = ?ip @ ?r" by simp
  have ip: "is_digits ?ip" using d
    by (auto simp: is_decimal_def is_digits_def Let_def list_all_iff dest: set_takeWhileD)
  show "is_digits s \<or> (\<exists>ip fp. s = ip @ CHR ''.'' # fp \<and> is_digits ip \<and> is_digits fp)"
  proof (cases "?r = []")
    case True
    with s have "s = ?ip" by simp
    with ip show ?thesis by simp
  next
    case False
    with d have h: "hd ?r = CHR ''.''" and t: "is_digits (tl ?r)"
      by (auto simp: is_decimal_def Let_def)
    from False h have "?r = CHR ''.'' # tl ?r" by (cases ?r) auto
    with s have "s = ?ip @ CHR ''.'' # tl ?r" by simp
    with ip t show ?thesis by blast
  qed
next
  assume "is_digits s \<or> (\<exists>ip fp. s = ip @ CHR ''.'' # fp \<and> is_digits ip \<and> is_digits fp)"
  then show "is_decimal s"
  proof
    assume a: "is_digits s"
    then have t: "takeWhile is_digit s = s"
      by (simp add: is_digits_def list_all_iff takeWhile_eq_all_conv)
    from a have d: "dropWhile is_digit s = []"
      by (simp add: is_digits_def list_all_iff)
    from a have n: "s \<noteq> []" by (simp add: is_digits_def)
    show ?thesis unfolding is_decimal_def Let_def t d using n by simp
  next
    assume "\<exists>ip fp. s = ip @ CHR ''.'' # fp \<and> is_digits ip \<and> is_digits fp"
    then obtain ip fp where s: "s = ip @ CHR ''.'' # fp" and ip: "is_digits ip" and fp: "is_digits fp"
      by blast
    from ip have a: "\<forall>x\<in>set ip. is_digit x" by (simp add: is_digits_def list_all_iff)
    have "takeWhile is_digit s = ip" "dropWhile is_digit s = CHR ''.'' # fp"
      unfolding s using a by (simp_all add: takeWhile_append2 dropWhile_append2)
    with ip fp show ?thesis by (simp add: is_decimal_def is_digits_def)
  qed
qed

lemma lower_char_cases:
  "lower_char c = c \<and> \<not> is_upper c \<or> is_lower (lower_char c) \<and> is_upper c"
proof (cases "map_of (zip ''ABCDEFGHIJKLMNOPQRSTUVWXYZ'' ''abcdefghijklmnopqrstuvwxyz'') c")
  case None
  have "length ''ABCDEFGHIJKLMNOPQRSTUVWXYZ'' = length ''abcdefghijklmnopqrstuvwxyz''" by simp
  from map_of_zip_is_None [OF this, of c] None
  have "\<not> is_upper c" unfolding is_upper_def by blast
  with None show ?thesis by (simp only: lower_char_def option.case) simp
next
  case (Some l)
  then have "(c, l) \<in> set (zip ''ABCDEFGHIJKLMNOPQRSTUVWXYZ'' ''abcdefghijklmnopqrstuvwxyz'')"
    by (rule map_of_SomeD)
  then have "c \<in> set ''ABCDEFGHIJKLMNOPQRSTUVWXYZ''" "l \<in> set ''abcdefghijklmnopqrstuvwxyz''"
    by (auto dest: set_zip_leftD set_zip_rightD)
  with Some show ?thesis by (simp only: lower_char_def option.case is_upper_def is_lower_def) simp
qed

lemma lower_char_fixed:
  "\<not> is_lower a \<Longrightarrow> lower_char y = a \<longleftrightarrow> y = a \<and> \<not> is_upper a"
  using lower_char_cases [of y] lower_char_cases [of a] by metis

lemma ceq_dot [simp]: "ceq fl CHR ''.'' y \<longleftrightarrow> y = CHR ''.''"
  using lower_char_fixed [of "CHR ''.''" y] lower_char_fixed [of "CHR ''.''" "CHR ''.''"]
  by (auto simp: ceq_def is_lower_def is_upper_def)

lemma cmem_Digit [simp]: "cmem fl Digit = is_digit"
  by (rule ext) simp

lemma digits_length: "is_digits s \<longleftrightarrow> list_all is_digit s \<and> Suc 0 \<le> length s"
  by (cases s) (auto simp: is_digits_def)

lemma rmc_number_unfold:
  "rmc fl number p u v c c' \<longleftrightarrow>
     (\<exists>u1 u2. u = u1 @ u2 \<and> is_digits u1 \<and>
        ((\<exists>fp. u2 = CHR ''.'' # fp \<and> is_digits fp \<and> c' = c) \<or> u2 = [] \<and> c' = c))"
  by (simp add: number_def upto_max_def list_all2_Cons1 digits_length cong: conj_cong)

lemma rmc_number:
  "rmc fl number p u v c c' \<longleftrightarrow> is_decimal u \<and> c' = c"
proof
  assume "rmc fl number p u v c c'"
  then obtain u1 u2 where u: "u = u1 @ u2" and d: "is_digits u1"
    and r: "(\<exists>fp. u2 = CHR ''.'' # fp \<and> is_digits fp \<and> c' = c) \<or> u2 = [] \<and> c' = c"
    unfolding rmc_number_unfold by blast
  from r show "is_decimal u \<and> c' = c"
  proof
    assume "\<exists>fp. u2 = CHR ''.'' # fp \<and> is_digits fp \<and> c' = c"
    then obtain fp where "u2 = CHR ''.'' # fp" "is_digits fp" "c' = c" by blast
    with u d show ?thesis unfolding is_decimal_iff by blast
  next
    assume "u2 = [] \<and> c' = c"
    with u d show ?thesis unfolding is_decimal_iff by simp
  qed
next
  assume a: "is_decimal u \<and> c' = c"
  then have "is_digits u \<or> (\<exists>ip fp. u = ip @ CHR ''.'' # fp \<and> is_digits ip \<and> is_digits fp)"
    unfolding is_decimal_iff by simp
  then show "rmc fl number p u v c c'"
  proof
    assume "is_digits u"
    then have "u = u @ [] \<and> is_digits u \<and>
        ((\<exists>fp. [] = CHR ''.'' # fp \<and> is_digits fp \<and> c' = c) \<or> ([]::string) = [] \<and> c' = c)"
      using a by simp
    then show ?thesis unfolding rmc_number_unfold by blast
  next
    assume "\<exists>ip fp. u = ip @ CHR ''.'' # fp \<and> is_digits ip \<and> is_digits fp"
    then obtain ip fp where "u = ip @ CHR ''.'' # fp" "is_digits ip" "is_digits fp" by blast
    then have "u = ip @ (CHR ''.'' # fp) \<and> is_digits ip \<and>
        ((\<exists>fp'. CHR ''.'' # fp = CHR ''.'' # fp' \<and> is_digits fp' \<and> c' = c)
          \<or> CHR ''.'' # fp = [] \<and> c' = c)"
      using a by simp
    then show ?thesis unfolding rmc_number_unfold by blast
  qed
qed

section \<open>Durations\<close>

lemma lit_Cons_fail:
  "\<not> ceq fl a x \<Longrightarrow> lit fl (a # as) k p (x # xs) = None"
  by simp

lemma lit_dot_other:
  "rest = [] \<or> hd rest \<noteq> CHR ''.'' \<Longrightarrow> lit fl ''.'' k p rest = None"
  by (cases rest) auto

lemma number_greedy:
  assumes d: "is_decimal d"
    and rest: "rest = [] \<or> (\<not> is_digit (hd rest) \<and> hd rest \<noteq> CHR ''.'')"
    and k: "k (lastp p d) rest c = Some x"
  shows "rmatch fl number k p (d @ rest) c = Some x"
proof -
  let ?frac = "Opt (Seq (Lit ''.'') (Rep Digit 1 None))"
  let ?k' = "\<lambda>p' s'. rmatch fl ?frac k p' s' c"
  have unfold: "rmatch fl number k p s c = rep is_digit 1 None 0 ?k' p s" for s
    by (simp add: number_def)
  from d have "is_digits d \<or> (\<exists>ip fp. d = ip @ CHR ''.'' # fp \<and> is_digits ip \<and> is_digits fp)"
    by (simp add: is_decimal_iff)
  then show ?thesis
  proof
    assume dd: "is_digits d"
    have "lit fl ''.'' (\<lambda>p' s'. rep is_digit 1 None 0 (\<lambda>p' s'. k p' s' c) p' s') (lastp p d) rest = None"
      using rest by (intro lit_dot_other) auto
    then have "?k' (lastp p d) rest = Some x" using k by simp
    moreover have "list_all is_digit d" "1 \<le> 0 + length d"
      using dd by (simp_all add: digits_length)
    moreover have "rest = [] \<or> \<not> is_digit (hd rest) \<or> None = Some (0 + length d)"
      using rest by auto
    ultimately have "rep is_digit 1 None 0 ?k' p (d @ rest) = Some x"
      by (intro rep_greedy) (simp_all add: upto_max_def)
    then show ?thesis by (simp only: unfold)
  next
    assume "\<exists>ip fp. d = ip @ CHR ''.'' # fp \<and> is_digits ip \<and> is_digits fp"
    then obtain ip fp where dq: "d = ip @ CHR ''.'' # fp" and ip: "is_digits ip" and fp: "is_digits fp"
      by blast
    have kk: "(\<lambda>p' s'. k p' s' c) (lastp (Some CHR ''.'') fp) rest = Some x"
      using k by (simp add: dq)
    have "list_all is_digit fp" "1 \<le> 0 + length fp" using fp by (simp_all add: digits_length)
    moreover have "rest = [] \<or> \<not> is_digit (hd rest) \<or> None = Some (0 + length fp)"
      using rest by auto
    ultimately have inner: "rep is_digit 1 None 0 (\<lambda>p' s'. k p' s' c) (Some CHR ''.'') (fp @ rest) = Some x"
      using kk by (intro rep_greedy) (simp_all add: upto_max_def)
    then have "?k' (lastp p ip) (CHR ''.'' # fp @ rest) = Some x" by simp
    moreover have "list_all is_digit ip" "1 \<le> 0 + length ip" using ip by (simp_all add: digits_length)
    ultimately have "rep is_digit 1 None 0 ?k' p (ip @ CHR ''.'' # fp @ rest) = Some x"
      by (intro rep_greedy) (simp_all add: upto_max_def)
    then show ?thesis by (simp only: unfold dq append_assoc append_Cons)
  qed
qed


lemma cmem_Space [simp]: "cmem fl Space = is_space"
  by (rule ext) simp

lemma lower_not_upper: "is_lower a \<Longrightarrow> \<not> is_upper a"
  by (auto simp: is_lower_def is_upper_def)

lemma letter_not_other:
  "is_lower a \<or> is_upper a \<Longrightarrow> \<not> is_digit a \<and> \<not> is_space a \<and> a \<noteq> CHR ''.''"
  by (auto simp: is_lower_def is_upper_def is_digit_def is_space_def)

lemma lower_char_lower: "is_lower a \<Longrightarrow> lower_char a = a"
  using lower_char_cases [of a] lower_not_upper [of a] by blast

lemma ceq_letter:
  assumes "ceq fl l a" and "is_lower l"
  shows "is_lower a \<or> is_upper a"
proof (cases "ignorecase fl")
  case True
  with assms have "lower_char a = l" by (simp add: ceq_def lower_char_lower)
  with lower_char_cases [of a] assms(2) show ?thesis by auto
next
  case False
  with assms show ?thesis by (simp add: ceq_def)
qed

lemma ceq_same:
  "ceq fl x a \<Longrightarrow> ceq fl y a \<Longrightarrow> is_lower x \<Longrightarrow> is_lower y \<Longrightarrow> x = y"
  by (cases "ignorecase fl") (auto simp: ceq_def lower_char_lower)

lemma is_unit_letters:
  assumes "is_unit fl u"
  shows "u \<noteq> [] \<and> (\<forall>a\<in>set u. is_lower a \<or> is_upper a)"
proof -
  have l: "is_lower CHR ''m''" "is_lower CHR ''s''" "is_lower CHR ''u''"
    by (simp_all add: is_lower_def)
  from assms show ?thesis
    unfolding is_unit_def
    by (auto simp: list_all2_Cons1 dest: ceq_letter [OF _ l(1)] ceq_letter [OF _ l(2)]
        ceq_letter [OF _ l(3)])
qed

lemma unit_opt:
  assumes "u = [] \<or> is_unit fl u"
  shows "rmatch fl (Opt (Group 2 unit_alt)) (\<lambda>p s c. Some c) p u c
       = Some (if u = [] then c else c(2 \<mapsto> u))"
proof -
  have l: "is_lower CHR ''m''" "is_lower CHR ''s''" "is_lower CHR ''u''"
    by (simp_all add: is_lower_def)
  from assms consider "u = []" | "list_all2 (ceq fl) ''ms'' u" | "list_all2 (ceq fl) ''s'' u"
    | "list_all2 (ceq fl) ''us'' u"
    unfolding is_unit_def by blast
  then show ?thesis
  proof cases
    case 1
    then show ?thesis by (simp add: unit_alt_def)
  next
    case 2
    then obtain a b where "u = [a, b]" "ceq fl CHR ''m'' a" "ceq fl CHR ''s'' b"
      by (auto simp: list_all2_Cons1)
    then show ?thesis by (simp add: unit_alt_def)
  next
    case 3
    then obtain a where "u = [a]" "ceq fl CHR ''s'' a"
      by (auto simp: list_all2_Cons1)
    then show ?thesis by (simp add: unit_alt_def)
  next
    case 4
    then obtain a b where u: "u = [a, b]" and a: "ceq fl CHR ''u'' a" and b: "ceq fl CHR ''s'' b"
      by (auto simp: list_all2_Cons1)
    have "\<not> ceq fl CHR ''m'' a" using ceq_same [OF _ a l(1) l(3)] by auto
    moreover have "\<not> ceq fl CHR ''s'' a" using ceq_same [OF _ a l(2) l(3)] by auto
    ultimately show ?thesis using u a b by (simp add: unit_alt_def)
  qed
qed

lemma rmatch_Eps_eta [simp]: "rmatch fl Eps k = k"
  by (rule ext)+ simp

lemma seconds_match:
  assumes d: "is_decimal d" and w: "list_all is_space w" and u: "u = [] \<or> is_unit fl u"
  shows "re_match fl seconds_pat (d @ w @ u)
       = Some (if u = [] then [1 \<mapsto> d] else [1 \<mapsto> d, 2 \<mapsto> u])"
proof -
  let ?K0 = "\<lambda>(p::char option) (s::string) (c::caps). Some c"
  let ?c1 = "[1 \<mapsto> d]"
  let ?cfin = "if u = [] then [1 \<mapsto> d] else [1 \<mapsto> d, 2 \<mapsto> u]"
  define G where "G = Opt (Group 2 unit_alt)"
  define R where "R = Seq ws (Seq G Eps)"
  have hu: "u = [] \<or> (\<not> is_digit (hd u) \<and> \<not> is_space (hd u) \<and> hd u \<noteq> CHR ''.'')"
  proof (cases "u = []")
    case False
    with u is_unit_letters [of fl u] have "is_lower (hd u) \<or> is_upper (hd u)" by auto
    then show ?thesis using letter_not_other by blast
  qed simp
  have step1: "rmatch fl G ?K0 p2 u c = Some (if u = [] then c else c(2 \<mapsto> u))" for p2 c
    unfolding G_def by (rule unit_opt [OF u])
  have step2: "rmatch fl R ?K0 p1 (w @ u) c = Some (if u = [] then c else c(2 \<mapsto> u))" for p1 c
  proof -
    have "rep is_space 0 None 0 (\<lambda>p' s'. rmatch fl G ?K0 p' s' c) p1 (w @ u)
        = Some (if u = [] then c else c(2 \<mapsto> u))"
      using w hu by (intro rep_greedy) (auto simp: upto_max_def step1)
    then show ?thesis by (simp add: R_def ws_def)
  qed
  have hw: "w @ u = [] \<or> (\<not> is_digit (hd (w @ u)) \<and> hd (w @ u) \<noteq> CHR ''.'')"
  proof (cases w)
    case Nil
    with hu show ?thesis by auto
  next
    case (Cons y ys)
    with w have "is_space y" by simp
    then have "\<not> is_digit y \<and> y \<noteq> CHR ''.''" by (auto simp: is_space_def is_digit_def)
    with Cons show ?thesis by simp
  qed
  have "rmatch fl number
          (\<lambda>p' s' c'. rmatch fl R ?K0 p' s'
             (c'(1 \<mapsto> take (length (d @ w @ u) - length s') (d @ w @ u))))
          None (d @ (w @ u)) Map.empty = Some ?cfin"
    by (rule number_greedy [OF d hw]) (simp add: step2)
  then have "rmatch fl (Seq (Group 1 number) R) ?K0 None (d @ w @ u) Map.empty = Some ?cfin"
    by simp
  then show ?thesis by (simp add: re_match_def seconds_pat_def seq_def R_def G_def)
qed

lemma digit_not_space: "is_digit c \<Longrightarrow> \<not> is_space c"
  by (auto simp: is_digit_def is_space_def)

lemma decimal_ends:
  assumes "is_decimal d"
  shows "d \<noteq> [] \<and> is_digit (hd d) \<and> is_digit (last d)"
proof -
  from assms have "is_digits d \<or> (\<exists>ip fp. d = ip @ CHR ''.'' # fp \<and> is_digits ip \<and> is_digits fp)"
    by (simp add: is_decimal_iff)
  then show ?thesis
  proof
    assume "is_digits d"
    then show ?thesis
      by (cases d) (auto simp: is_digits_def list_all_iff)
  next
    assume "\<exists>ip fp. d = ip @ CHR ''.'' # fp \<and> is_digits ip \<and> is_digits fp"
    then obtain ip fp where d: "d = ip @ CHR ''.'' # fp" and ip: "is_digits ip" and fp: "is_digits fp"
      by blast
    from ip have "ip \<noteq> []" "is_digit (hd ip)"
      by (cases ip; simp add: is_digits_def)+
    moreover from fp have "fp \<noteq> []" "is_digit (last fp)"
      by (auto simp: is_digits_def list_all_iff)
    ultimately show ?thesis by (simp add: d)
  qed
qed

lemma strip_id:
  assumes "s \<noteq> []" "\<not> is_space (hd s)" "\<not> is_space (last s)"
  shows "strip s = s"
proof -
  from assms have a: "dropWhile is_space s = s" by (cases s) auto
  from assms have "rev s \<noteq> []" "\<not> is_space (hd (rev s))" by (simp_all add: hd_rev)
  then have "dropWhile is_space (rev s) = rev s" by (cases "rev s") auto
  with a show ?thesis by (simp add: strip_def)
qed

lemma strip_trailing:
  assumes "s \<noteq> []" "\<not> is_space (hd s)" "\<not> is_space (last s)" "list_all is_space w"
  shows "strip (s @ w) = s"
proof -
  from assms have a: "dropWhile is_space (s @ w) = s @ w" by (cases s) auto
  from assms have "rev s \<noteq> []" "\<not> is_space (hd (rev s))" by (simp_all add: hd_rev)
  then have b: "dropWhile is_space (rev s) = rev s" by (cases "rev s") auto
  have "dropWhile is_space (rev w @ rev s) = dropWhile is_space (rev s)"
    using assms(4) by (intro dropWhile_append2) (simp add: list_all_iff)
  with a b show ?thesis by (simp add: strip_def)
qed

lemma strip_number_unit:
  assumes d: "is_decimal d" and w: "list_all is_space w" and u: "u = [] \<or> is_unit fl u"
  shows "strip (d @ w @ u) = (if u = [] then d else d @ w @ u)"
proof (cases "u = []")
  case True
  with decimal_ends [OF d] w show ?thesis
    by (simp add: strip_trailing digit_not_space)
next
  case False
  with u is_unit_letters [of fl u] have "is_lower (last u) \<or> is_upper (last u)" by auto
  then have "\<not> is_space (last u)" using letter_not_other by blast
  moreover from decimal_ends [OF d] have "d \<noteq> []" "\<not> is_space (hd d)"
    by (simp_all add: digit_not_space)
  ultimately have "strip (d @ w @ u) = d @ w @ u"
    using False by (intro strip_id) simp_all
  with False show ?thesis by simp
qed

lemma list_all2_ceq_icase:
  "ignorecase fl \<Longrightarrow> list_all2 (ceq fl) l u \<longleftrightarrow> lower l = lower u"
proof (induction l arbitrary: u)
  case Nil
  then show ?case by (simp add: lower_def)
next
  case (Cons a l)
  then show ?case by (cases u) (auto simp: ceq_def lower_def)
qed

lemma list_all2_ceq_exact:
  "\<not> ignorecase fl \<Longrightarrow> list_all2 (ceq fl) l u \<longleftrightarrow> l = u"
proof -
  assume "\<not> ignorecase fl"
  then have "ceq fl = (=)" by (intro ext) (simp add: ceq_def)
  then show ?thesis by (simp add: list_all2_eq)
qed

lemma lower_unit_iff:
  "lower u \<in> {''ms'', ''s'', ''us''} \<longleftrightarrow> is_unit IGNORECASE u"
proof -
  have "list_all2 (ceq IGNORECASE) l u \<longleftrightarrow> lower l = lower u" for l
    by (rule list_all2_ceq_icase) (simp add: IGNORECASE_def)
  moreover have "lower ''ms'' = ''ms''" "lower ''s'' = ''s''" "lower ''us'' = ''us''"
    by (simp_all add: lower_def lower_char_def)
  ultimately show ?thesis unfolding is_unit_def by auto
qed

lemma exact_unit_iff:
  "u \<in> {''ms'', ''s'', ''us''} \<longleftrightarrow> is_unit no_flags u"
proof -
  have "list_all2 (ceq no_flags) l u \<longleftrightarrow> l = u" for l
    by (rule list_all2_ceq_exact) (simp add: no_flags_def)
  then show ?thesis unfolding is_unit_def by auto
qed

lemma lower_char_not_upper: "\<not> is_upper c \<Longrightarrow> lower_char c = c"
  using lower_char_cases [of c] by blast

lemma lower_id: "\<forall>c\<in>set s. \<not> is_upper c \<Longrightarrow> lower s = s"
  by (induction s) (simp_all add: lower_def lower_char_not_upper)

lemma digit_not_upper: "is_digit c \<Longrightarrow> \<not> is_upper c"
  by (auto simp: is_digit_def is_upper_def)

lemma space_not_upper: "is_space c \<Longrightarrow> \<not> is_upper c"
  by (auto simp: is_space_def is_upper_def)

lemma lower_decimal: "is_decimal d \<Longrightarrow> lower d = d"
proof (rule lower_id)
  assume "is_decimal d"
  then have "is_digits d \<or> (\<exists>ip fp. d = ip @ CHR ''.'' # fp \<and> is_digits ip \<and> is_digits fp)"
    by (simp add: is_decimal_iff)
  then have "\<forall>c\<in>set d. is_digit c \<or> c = CHR ''.''"
    by (auto simp: is_digits_def list_all_iff)
  moreover have "\<not> is_upper CHR ''.''" by (simp add: is_upper_def)
  ultimately show "\<forall>c\<in>set d. \<not> is_upper c" using digit_not_upper by blast
qed

lemma lower_spaces: "list_all is_space w \<Longrightarrow> lower w = w"
  by (rule lower_id) (auto simp: list_all_iff space_not_upper)

lemma lower_append: "lower (a @ b) = lower a @ lower b"
  by (simp add: lower_def)

lemma lower_lower: "lower (lower u) = lower u"
proof -
  have "lower_char (lower_char c) = lower_char c" for c
    using lower_char_cases [of c] lower_char_lower [of "lower_char c"] by auto
  then show ?thesis by (simp add: lower_def)
qed

lemma convert_to_seconds_number_unit:
  assumes d: "is_decimal d" and w: "list_all is_space w"
    and u: "lower u \<in> {''ms'', ''s'', ''us'', []}"
  shows "convert_to_seconds py_float (Some (d @ w @ u))
     = Some (if lower u = ''ms'' then float_of_decimal d / 1000
             else if lower u = ''us'' then float_of_decimal d / 1000000
             else float_of_decimal d)"
proof -
  from u have u': "u = [] \<or> is_unit IGNORECASE u"
    using lower_unit_iff [of u] by (auto simp: lower_def)
  have s: "strip (d @ w @ u) = (if u = [] then d else d @ w @ u)"
    by (rule strip_number_unit [OF d w u'])
  show ?thesis
  proof (cases "u = []")
    case True
    have "re_match IGNORECASE seconds_pat (d @ [] @ []) = Some [1 \<mapsto> d]"
      using seconds_match [OF d, of "[]" "[]" IGNORECASE] by simp
    then have m: "re_match IGNORECASE seconds_pat d = Some [1 \<mapsto> d]" by simp
    have l: "lower ''s'' = ''s''" "lower [] = []" by (simp_all add: lower_def lower_char_def)
    have s': "strip (d @ w) = d" using s True by simp
    show ?thesis unfolding True
      by (simp add: convert_to_seconds_def s' m group_def group_or_def l Let_def)
  next
    case False
    have m: "re_match IGNORECASE seconds_pat (d @ w @ u) = Some [1 \<mapsto> d, 2 \<mapsto> u]"
      using seconds_match [OF d w u'] False by simp
    show ?thesis using False
      by (simp add: convert_to_seconds_def s m group_def group_or_def Let_def)
  qed
qed

lemma convert_to_seconds_report_number_unit:
  assumes d: "is_decimal d" and w: "list_all is_space w"
    and u: "lower u \<in> {''ms'', ''s'', ''us'', []}"
  shows "convert_to_seconds_report py_float (Some (d @ w @ u))
     = Some (if lower u = ''ms'' then float_of_decimal d / 1000
             else if lower u = ''us'' then float_of_decimal d / 1000000
             else float_of_decimal d)"
proof -
  from u have u': "u = [] \<or> is_unit IGNORECASE u"
    using lower_unit_iff [of u] by (auto simp: lower_def)
  have s: "strip (d @ w @ u) = (if u = [] then d else d @ w @ u)"
    by (rule strip_number_unit [OF d w u'])
  show ?thesis
  proof (cases "u = []")
    case True
    have "re_match no_flags seconds_pat (d @ [] @ []) = Some [1 \<mapsto> d]"
      using seconds_match [OF d, of "[]" "[]" no_flags] by simp
    then have m: "re_match no_flags seconds_pat d = Some [1 \<mapsto> d]" by simp
    have l: "lower [] = []" by (simp add: lower_def)
    have s': "strip (d @ w) = d" using s True by simp
    show ?thesis unfolding True
      by (simp add: convert_to_seconds_report_def s' m group_def group_or_def lower_decimal [OF d]
          l Let_def)
  next
    case False
    then have "lower u \<noteq> []" by (simp add: lower_def)
    with u have lu: "is_unit no_flags (lower u)" using exact_unit_iff [of "lower u"] by auto
    have ls: "lower (d @ w @ u) = d @ w @ lower u"
      by (simp add: lower_append lower_decimal [OF d] lower_spaces [OF w])
    have m: "re_match no_flags seconds_pat (d @ w @ lower u) = Some [1 \<mapsto> d, 2 \<mapsto> lower u]"
      using seconds_match [OF d w, of "lower u" no_flags] lu \<open>lower u \<noteq> []\<close> by simp
    show ?thesis using False \<open>lower u \<noteq> []\<close>
      by (simp add: convert_to_seconds_report_def s ls m group_def group_or_def Let_def)
  qed
qed

lemma seconds_no_match:
  assumes "s = [] \<or> \<not> is_digit (hd s)"
  shows "re_match fl seconds_pat s = None"
proof (rule ccontr)
  assume "re_match fl seconds_pat s \<noteq> None"
  then obtain c where "rmatch fl seconds_pat (\<lambda>p' s' c'. Some c') None s Map.empty = Some c"
    by (auto simp: re_match_def)
  from rmatch_sound [OF this] obtain u v c' where
    s: "s = u @ v" and m: "rmc fl seconds_pat None u v Map.empty c'" by blast
  from m obtain u1 u2 where "u = u1 @ u2" "is_decimal u1"
    by (auto simp: seconds_pat_def seq_def rmc_number)
  with decimal_ends [of u1] s have "s \<noteq> []" "is_digit (hd s)" by auto
  with assms show False by blast
qed

section \<open>The fields of the load-test record\<close>

lemma step_rps_frame [simp]:
  "p50 (step_rps t r) = p50 r" "p75 (step_rps t r) = p75 r" "p90 (step_rps t r) = p90 r"
  "p99 (step_rps t r) = p99 r" "raw_errors (step_rps t r) = raw_errors r"
  "socket_errors (step_rps t r) = socket_errors r"
  "transfer_per_sec (step_rps t r) = transfer_per_sec r"
  by (simp_all add: step_rps_def split: option.splits)

lemma step_transfer_frame [simp]:
  "requests_per_sec (step_transfer t r) = requests_per_sec r"
  "p50 (step_transfer t r) = p50 r" "p75 (step_transfer t r) = p75 r"
  "p90 (step_transfer t r) = p90 r" "p99 (step_transfer t r) = p99 r"
  "raw_errors (step_transfer t r) = raw_errors r"
  "socket_errors (step_transfer t r) = socket_errors r"
  by (simp_all add: step_transfer_def Let_def split: option.splits)

lemma step_perc_frame [simp]:
  "requests_per_sec (step_perc conv pf t r perc) = requests_per_sec r"
  "raw_errors (step_perc conv pf t r perc) = raw_errors r"
  "socket_errors (step_perc conv pf t r perc) = socket_errors r"
  "transfer_per_sec (step_perc conv pf t r perc) = transfer_per_sec r"
  by (simp_all add: step_perc_def set_perc_def split: option.splits)

lemma step_inline_frame [simp]:
  "requests_per_sec (step_inline conv pf t r) = requests_per_sec r"
  "p99 (step_inline conv pf t r) = p99 r"
  "raw_errors (step_inline conv pf t r) = raw_errors r"
  "socket_errors (step_inline conv pf t r) = socket_errors r"
  "transfer_per_sec (step_inline conv pf t r) = transfer_per_sec r"
  by (simp_all add: step_inline_def split: option.splits)

lemma step_p99_frame [simp]:
  "requests_per_sec (step_p99 pf t r) = requests_per_sec r"
  "p50 (step_p99 pf t r) = p50 r" "p75 (step_p99 pf t r) = p75 r"
  "p90 (step_p99 pf t r) = p90 r"
  "raw_errors (step_p99 pf t r) = raw_errors r"
  "socket_errors (step_p99 pf t r) = socket_errors r"
  "transfer_per_sec (step_p99 pf t r) = transfer_per_sec r"
  by (simp_all add: step_p99_def split: option.splits)

lemma step_errors_frame [simp]:
  "requests_per_sec (step_errors t r) = requests_per_sec r"
  "p50 (step_errors t r) = p50 r" "p75 (step_errors t r) = p75 r"
  "p90 (step_errors t r) = p90 r" "p99 (step_errors t r) = p99 r"
  "socket_errors (step_errors t r) = socket_errors r"
  "transfer_per_sec (step_errors t r) = transfer_per_sec r"
  by (simp_all add: step_errors_def split: option.splits)

lemma step_errors_report_frame [simp]:
  "requests_per_sec (step_errors_report t r) = requests_per_sec r"
  "p50 (step_errors_report t r) = p50 r" "p75 (step_errors_report t r) = p75 r"
  "p90 (step_errors_report t r) = p90 r" "p99 (step_errors_report t r) = p99 r"
  "raw_errors (step_errors_report t r) = raw_errors r"
  "transfer_per_sec (step_errors_report t r) = transfer_per_sec r"
  by (simp_all add: step_errors_report_def split: option.splits)

text \<open>The value the per-line search gives a percentile.\<close>

lemma per_line_loop:
  "foldl (step_perc conv pf t) r [''50'', ''75'', ''90'', ''99'']
     = step_perc conv pf t (step_perc conv pf t (step_perc conv pf t (step_perc conv pf t r ''50'')
         ''75'') ''90'') ''99''"
  by simp

lemma step_perc_p50 [simp]:
  "p50 (step_perc conv pf t r ''50'')
     = (case re_search MULTILINE_IGNORECASE (perc_pat ''50'') t of
          Some mm \<Rightarrow> conv pf (mm 1) | None \<Rightarrow> p50 r)"
  "p50 (step_perc conv pf t r ''75'') = p50 r" "p50 (step_perc conv pf t r ''90'') = p50 r"
  "p50 (step_perc conv pf t r ''99'') = p50 r"
  by (simp_all add: step_perc_def set_perc_def split: option.splits)

lemma step_perc_p75 [simp]:
  "p75 (step_perc conv pf t r ''75'')
     = (case re_search MULTILINE_IGNORECASE (perc_pat ''75'') t of
          Some mm \<Rightarrow> conv pf (mm 1) | None \<Rightarrow> p75 r)"
  "p75 (step_perc conv pf t r ''50'') = p75 r" "p75 (step_perc conv pf t r ''90'') = p75 r"
  "p75 (step_perc conv pf t r ''99'') = p75 r"
  by (simp_all add: step_perc_def set_perc_def split: option.splits)

lemma step_perc_p90 [simp]:
  "p90 (step_perc conv pf t r ''90'')
     = (case re_search MULTILINE_IGNORECASE (perc_pat ''90'') t of
          Some mm \<Rightarrow> conv pf (mm 1) | None \<Rightarrow> p90 r)"
  "p90 (step_perc conv pf t r ''50'') = p90 r" "p90 (step_perc conv pf t r ''75'') = p90 r"
  "p90 (step_perc conv pf t r ''99'') = p90 r"
  by (simp_all add: step_perc_def set_perc_def split: option.splits)

lemma step_perc_p99 [simp]:
  "p99 (step_perc conv pf t r ''99'')
     = (case re_search MULTILINE_IGNORECASE (perc_pat ''99'') t of
          Some mm \<Rightarrow> conv pf (mm 1) | None \<Rightarrow> p99 r)"
  "p99 (step_perc conv pf t r ''50'') = p99 r" "p99 (step_perc conv pf t r ''75'') = p99 r"
  "p99 (step_perc conv pf t r ''90'') = p99 r"
  by (simp_all add: step_perc_def set_perc_def split: option.splits)

lemma step_inline_trio [simp]:
  "p50 (step_inline conv pf t r)
     = (case re_search IGNORECASE inline_pat t of Some i \<Rightarrow> conv pf (i 1) | None \<Rightarrow> p50 r)"
  "p75 (step_inline conv pf t r)
     = (case re_search IGNORECASE inline_pat t of Some i \<Rightarrow> conv pf (i 2) | None \<Rightarrow> p75 r)"
  "p90 (step_inline conv pf t r)
     = (case re_search IGNORECASE inline_pat t of Some i \<Rightarrow> conv pf (i 3) | None \<Rightarrow> p90 r)"
  by (simp_all add: step_inline_def split: option.splits)

lemma res_init_fields [simp]:
  "requests_per_sec res_init = None" "p50 res_init = None" "p75 res_init = None"
  "p90 res_init = None" "p99 res_init = None" "raw_errors res_init = None"
  "socket_errors res_init = None" "transfer_per_sec res_init = None"
  by (simp_all add: res_init_def)

lemma parse_wrk_file_unfold:
  "parse_wrk_file pf t
     = step_errors t (step_p99 pf t (step_inline convert_to_seconds pf t
         (foldl (step_perc convert_to_seconds pf t) (step_rps t res_init)
            [''50'', ''75'', ''90'', ''99''])))"
  by (simp only: parse_wrk_file_def Let_def)

lemma parse_wrk_file_report_unfold:
  "parse_wrk_file_report pf t
     = step_errors_report t (step_inline convert_to_seconds_report pf t
         (foldl (step_perc convert_to_seconds_report pf t) (step_transfer t (step_rps t res_init))
            [''50'', ''75'', ''90'', ''99'']))"
  by (simp only: parse_wrk_file_report_def Let_def)

lemma wrk_rps:
  "requests_per_sec (parse_wrk_file pf t)
     = map_option (\<lambda>m. float_of_decimal (group m 1)) (re_search no_flags rps_pat t)"
  "requests_per_sec (parse_wrk_file_report pf t)
     = map_option (\<lambda>m. float_of_decimal (group m 1)) (re_search no_flags rps_pat t)"
  by (simp_all only: parse_wrk_file_unfold parse_wrk_file_report_unfold per_line_loop
      step_errors_frame step_p99_frame step_inline_frame step_perc_frame step_transfer_frame
      step_errors_report_frame)
    (simp_all add: step_rps_def split: option.splits)

lemma wrk_p50:
  "p50 (parse_wrk_file pf t)
     = (case re_search IGNORECASE inline_pat t of
          Some i \<Rightarrow> convert_to_seconds pf (i 1)
        | None \<Rightarrow> (case re_search MULTILINE_IGNORECASE (perc_pat ''50'') t of
                     Some mm \<Rightarrow> convert_to_seconds pf (mm 1) | None \<Rightarrow> None))"
  "p50 (parse_wrk_file_report pf t)
     = (case re_search IGNORECASE inline_pat t of
          Some i \<Rightarrow> convert_to_seconds_report pf (i 1)
        | None \<Rightarrow> (case re_search MULTILINE_IGNORECASE (perc_pat ''50'') t of
                     Some mm \<Rightarrow> convert_to_seconds_report pf (mm 1) | None \<Rightarrow> None))"
  by (simp_all add: parse_wrk_file_unfold parse_wrk_file_report_unfold per_line_loop
      cong: option.case_cong)

lemma wrk_p75:
  "p75 (parse_wrk_file pf t)
     = (case re_search IGNORECASE inline_pat t of
          Some i \<Rightarrow> convert_to_seconds pf (i 2)
        | None \<Rightarrow> (case re_search MULTILINE_IGNORECASE (perc_pat ''75'') t of
                     Some mm \<Rightarrow> convert_to_seconds pf (mm 1) | None \<Rightarrow> None))"
  "p75 (parse_wrk_file_report pf t)
     = (case re_search IGNORECASE inline_pat t of
          Some i \<Rightarrow> convert_to_seconds_report pf (i 2)
        | None \<Rightarrow> (case re_search MULTILINE_IGNORECASE (perc_pat ''75'') t of
                     Some mm \<Rightarrow> convert_to_seconds_report pf (mm 1) | None \<Rightarrow> None))"
  by (simp_all add: parse_wrk_file_unfold parse_wrk_file_report_unfold per_line_loop
      cong: option.case_cong)

lemma wrk_p90:
  "p90 (parse_wrk_file pf t)
     = (case re_search IGNORECASE inline_pat t of
          Some i \<Rightarrow> convert_to_seconds pf (i 3)
        | None \<Rightarrow> (case re_search MULTILINE_IGNORECASE (perc_pat ''90'') t of
                     Some mm \<Rightarrow> convert_to_seconds pf (mm 1) | None \<Rightarrow> None))"
  "p90 (parse_wrk_file_report pf t)
     = (case re_search IGNORECASE inline_pat t of
          Some i \<Rightarrow> convert_to_seconds_report pf (i 3)
        | None \<Rightarrow> (case re_search MULTILINE_IGNORECASE (perc_pat ''90'') t of
                     Some mm \<Rightarrow> convert_to_seconds_report pf (mm 1) | None \<Rightarrow> None))"
  by (simp_all add: parse_wrk_file_unfold parse_wrk_file_report_unfold per_line_loop
      cong: option.case_cong)

lemma wrk_p99:
  "p99 (parse_wrk_file pf t)
     = (case re_search IGNORECASE p99_pat t of
          Some m99 \<Rightarrow> convert_to_seconds pf (m99 1)
        | None \<Rightarrow> (case re_search MULTILINE_IGNORECASE (perc_pat ''99'') t of
                     Some mm \<Rightarrow> convert_to_seconds pf (mm 1) | None \<Rightarrow> None))"
  "p99 (parse_wrk_file_report pf t)
     = (case re_search MULTILINE_IGNORECASE (perc_pat ''99'') t of
          Some mm \<Rightarrow> convert_to_seconds_report pf (mm 1) | None \<Rightarrow> None)"
  by (simp_all add: parse_wrk_file_unfold parse_wrk_file_report_unfold per_line_loop step_p99_def
      split: option.splits cong: option.case_cong)

lemma wrk_errors:
  "raw_errors (parse_wrk_file pf t)
     = map_option (\<lambda>m. strip (group m 0)) (re_search no_flags err_pat t)"
  "socket_errors (parse_wrk_file_report pf t)
     = map_option (\<lambda>m. strip (group m 1)) (re_search no_flags err_pat_report t)"
  by (simp_all add: parse_wrk_file_unfold parse_wrk_file_report_unfold per_line_loop
      step_errors_def step_errors_report_def
      split: option.splits cong: option.case_cong)

lemma step_transfer_None:
  "re_search no_flags transfer_pat t = None \<Longrightarrow> step_transfer t r = r"
  by (simp add: step_transfer_def)

lemma wrk_transfer:
  "re_search no_flags transfer_pat t = None \<Longrightarrow>
     transfer_per_sec (parse_wrk_file_report pf t) = None"
  by (simp add: parse_wrk_file_report_unfold per_line_loop step_transfer_None)

section \<open>The CPU patterns, piece by piece\<close>

lemma rmc_Lit_icase:
  "ignorecase fl \<Longrightarrow> rmc fl (Lit l) p u v c c' \<longleftrightarrow> lower u = lower l \<and> c' = c"
  by (auto simp: list_all2_ceq_icase)

lemma rmc_Lit_exact:
  "\<not> ignorecase fl \<Longrightarrow> rmc fl (Lit l) p u v c c' \<longleftrightarrow> u = l \<and> c' = c"
  by (auto simp: list_all2_ceq_exact)

lemma rmc_ws [simp]: "rmc fl ws p u v c c' \<longleftrightarrow> list_all is_space u \<and> c' = c"
  by (simp add: ws_def upto_max_def)

lemma rmc_Group_number [simp]:
  "rmc fl (Group n number) p u v c c' \<longleftrightarrow> is_decimal u \<and> c' = c(n \<mapsto> u)"
  by (auto simp: rmc_number)

lemma lower_eq_symbol:
  "\<not> is_lower a \<Longrightarrow> \<not> is_upper a \<Longrightarrow> lower u = [a] \<longleftrightarrow> u = [a]"
  by (cases u) (auto simp: lower_def lower_char_fixed)

lemma lower_eq_equals [simp]: "lower u = ''='' \<longleftrightarrow> u = ''=''"
  by (rule lower_eq_symbol) (simp_all add: is_lower_def is_upper_def)

lemma lower_eq_percent [simp]: "lower u = ''%'' \<longleftrightarrow> u = ''%''"
  by (rule lower_eq_symbol) (simp_all add: is_lower_def is_upper_def)

lemma lower_literals [simp]:
  "lower ''avg idle'' = ''avg idle''" "lower ''AVG busy'' = ''avg busy''"
  "lower ''over'' = ''over''" "lower ''samples'' = ''samples''"
  "lower ''='' = ''=''" "lower ''%'' = ''%''"
  by code_simp+

lemma rmc_Group_digits [simp]:
  "rmc fl (Group n (Rep Digit (Suc 0) None)) p u v c c' \<longleftrightarrow> is_digits u \<and> c' = c(n \<mapsto> u)"
  by (auto simp: upto_max_def digits_length)

lemma rmc_dotstar_all [simp]:
  "dotall fl \<Longrightarrow> rmc fl dotstar p u v c c' \<longleftrightarrow> c' = c"
  by (auto simp: dotstar_def upto_max_def list_all_iff)

lemma rmc_seq_Nil [simp]: "rmc fl (seq []) p u v c c' \<longleftrightarrow> u = [] \<and> c' = c"
  by (simp add: seq_def)

lemma rmc_seq_Cons [simp]:
  "rmc fl (seq (r # rs)) p u v c c' \<longleftrightarrow>
     (\<exists>u1 u2 c1. u = u1 @ u2 \<and> rmc fl r p u1 (u2 @ v) c c1
        \<and> rmc fl (seq rs) (lastp p u1) u2 v c1 c')"
  by (simp add: seq_def)

lemma ic [simp]: "ignorecase IGNORECASE" "ignorecase IGNORECASE_DOTALL" "\<not> ignorecase no_flags"
  "ignorecase MULTILINE_IGNORECASE" "dotall IGNORECASE_DOTALL" "\<not> dotall IGNORECASE"
  by (simp_all add: IGNORECASE_def IGNORECASE_DOTALL_def no_flags_def MULTILINE_IGNORECASE_def)

lemma rmc_Lit_IGNORECASE [simp]:
  "rmc IGNORECASE (Lit l) p u v c c' \<longleftrightarrow> lower u = lower l \<and> c' = c"
  "rmc IGNORECASE_DOTALL (Lit l) p u v c c' \<longleftrightarrow> lower u = lower l \<and> c' = c"
  using rmc_Lit_icase [of IGNORECASE l p u v c c']
    rmc_Lit_icase [of IGNORECASE_DOTALL l p u v c c'] ic by blast+

lemma rmc_seq_ConsI:
  "rmc fl r p u1 (u2 @ v) c c1 \<Longrightarrow> rmc fl (seq rs) (lastp p u1) u2 v c1 c' \<Longrightarrow>
     rmc fl (seq (r # rs)) p (u1 @ u2) v c c'"
  by (subst rmc_seq_Cons) blast

lemma rmc_seq_lastI:
  "rmc fl r p u v c c' \<Longrightarrow> rmc fl (seq [r]) p u v c c'"
  using rmc_seq_ConsI [of fl r p u "[]" v c c' "[]" c'] by simp

declare rmc.simps [simp del]

lemma rmc_cpu_pat_idle:
  "rmc IGNORECASE cpu_pat_idle p u v c c' \<longleftrightarrow>
     (\<exists>a w1 w2 I w3. u = a @ w1 @ ''='' @ w2 @ I @ w3 @ ''%'' \<and> lower a = ''avg idle''
        \<and> list_all is_space w1 \<and> list_all is_space w2 \<and> list_all is_space w3
        \<and> is_decimal I \<and> c' = c(1 \<mapsto> I))"
proof
  assume "rmc IGNORECASE cpu_pat_idle p u v c c'"
  then obtain a w1 e w2 I w3 pc where "u = a @ w1 @ e @ w2 @ I @ w3 @ pc"
    "lower a = ''avg idle''" "list_all is_space w1" "e = ''=''" "list_all is_space w2"
    "is_decimal I" "list_all is_space w3" "pc = ''%''" "c' = c(1 \<mapsto> I)"
    unfolding cpu_pat_idle_def by (auto cong: conj_cong)
  then show "\<exists>a w1 w2 I w3. u = a @ w1 @ ''='' @ w2 @ I @ w3 @ ''%'' \<and> lower a = ''avg idle''
        \<and> list_all is_space w1 \<and> list_all is_space w2 \<and> list_all is_space w3
        \<and> is_decimal I \<and> c' = c(1 \<mapsto> I)"
    by blast
next
  assume "\<exists>a w1 w2 I w3. u = a @ w1 @ ''='' @ w2 @ I @ w3 @ ''%'' \<and> lower a = ''avg idle''
        \<and> list_all is_space w1 \<and> list_all is_space w2 \<and> list_all is_space w3
        \<and> is_decimal I \<and> c' = c(1 \<mapsto> I)"
  then obtain a w1 w2 I w3 where u: "u = a @ w1 @ ''='' @ w2 @ I @ w3 @ ''%''"
    and f: "lower a = ''avg idle''" "list_all is_space w1" "list_all is_space w2"
      "list_all is_space w3" "is_decimal I" "c' = c(1 \<mapsto> I)"
    by blast
  show "rmc IGNORECASE cpu_pat_idle p u v c c'"
    unfolding cpu_pat_idle_def u
    apply (rule rmc_seq_ConsI, simp add: f)
    apply (rule rmc_seq_ConsI, simp add: f)
    apply (rule rmc_seq_ConsI, simp add: f)
    apply (rule rmc_seq_ConsI, simp add: f)
    apply (rule rmc_seq_ConsI, simp add: f)
    apply (rule rmc_seq_ConsI, simp add: f)
    apply (rule rmc_seq_lastI, simp add: f)
    done
qed

section \<open>The display order\<close>

lemma index_filter_iff:
  "distinct (index df) \<Longrightarrow> (i, r) \<in> set df \<Longrightarrow>
     i \<in> set (index (filter P df)) \<longleftrightarrow> P (i, r)"
proof (induction df)
  case Nil
  then show ?case by simp
next
  case (Cons x df)
  then show ?case by (cases x) (force simp: index_def)
qed

lemma rest_rows_eq:
  assumes "distinct (index df)"
  shows "rest_rows df =
     filter (\<lambda>(i, r). scenario r \<noteq> ''NO INJECTION''
               \<and> concurrency r \<notin> {Some 300, Some 500, Some 1000}) df"
  unfolding rest_rows_def
proof (rule filter_cong [OF refl])
  fix x assume x: "x \<in> set df"
  obtain i r where ir: "x = (i, r)" by (cases x)
  from x ir have m: "(i, r) \<in> set df" by simp
  show "(case x of (i, r) \<Rightarrow> i \<notin> set (index (noinj_rows df) @ index (conc_rows 300 df)
            @ index (conc_rows 500 df) @ index (conc_rows 1000 df)))
      = (case x of (i, r) \<Rightarrow> scenario r \<noteq> ''NO INJECTION''
            \<and> concurrency r \<notin> {Some 300, Some 500, Some 1000})"
    unfolding ir noinj_rows_def conc_rows_def
    using index_filter_iff [OF assms m] by auto
qed

text \<open>
  Claim C6: for a table whose index labels are distinct (as those of every table the
  Collector builds), \<open>custom_order\<close> is a stable partition: the rows of scenario
  "NO INJECTION" first, then the other rows of concurrency 300, of 500, of 1000, then every
  remaining row, each bucket in the original order.
\<close>

theorem custom_order_stable_partition:
  assumes "distinct (index df)"
  shows "custom_order df =
     filter (\<lambda>(i, r). scenario r = ''NO INJECTION'') df
     @ filter (\<lambda>(i, r). concurrency r = Some 300 \<and> scenario r \<noteq> ''NO INJECTION'') df
     @ filter (\<lambda>(i, r). concurrency r = Some 500 \<and> scenario r \<noteq> ''NO INJECTION'') df
     @ filter (\<lambda>(i, r). concurrency r = Some 1000 \<and> scenario r \<noteq> ''NO INJECTION'') df
     @ filter (\<lambda>(i, r). scenario r \<noteq> ''NO INJECTION''
                 \<and> concurrency r \<notin> {Some 300, Some 500, Some 1000}) df"
  unfolding custom_order_def Let_def rest_rows_eq [OF assms]
  by (simp add: noinj_rows_def conc_rows_def)

lemma frame6_distinct: "distinct (index frame6)"
  by (simp add: frame6_def index_def)

theorem custom_order_stable_partition_witness:
  "distinct (index frame6) \<and>
   map fst (custom_order frame6) = [2, 1, 5, 3, 0, 4]"
  using custom_order_stable_partition [of frame6]
  by (simp add: frame6_def index_def run_row_def data_init_def)

lemma mset_partition5:
  assumes "\<And>x. x \<in> set xs \<Longrightarrow>
     (if A x then 1 else 0) + (if B x then 1 else 0) + (if C x then 1 else 0)
       + (if D x then 1 else 0) + (if E x then 1 else 0) = (1::nat)"
  shows "mset (filter A xs @ filter B xs @ filter C xs @ filter D xs @ filter E xs) = mset xs"
  using assms
proof (induction xs)
  case Nil
  then show ?case by simp
next
  case (Cons x xs)
  have ih: "mset (filter A xs @ filter B xs @ filter C xs @ filter D xs @ filter E xs) = mset xs"
    by (rule Cons.IH) (simp add: Cons.prems)
  have "(if A x then 1 else 0) + (if B x then 1 else 0) + (if C x then 1 else 0)
       + (if D x then 1 else 0) + (if E x then 1 else 0) = (1::nat)"
    by (rule Cons.prems) simp
  then show ?case using ih by (auto split: if_splits)
qed

text \<open>
  Claim C10: for a table with distinct index labels, \<open>custom_order\<close> returns a permutation
  of the rows, none dropped and none repeated; a "NO INJECTION" row is in the leading bucket
  only, whatever its concurrency, and a row of no bucket is in the trailing remainder.
\<close>

theorem custom_order_permutation:
  assumes "distinct (index df)"
  shows "mset (custom_order df) = mset df \<and> distinct (custom_order df)
    \<and> (\<forall>x \<in> set df. scenario (snd x) = ''NO INJECTION'' \<longrightarrow>
          x \<in> set (noinj_rows df) \<and> x \<notin> set (conc_rows 300 df) \<and> x \<notin> set (conc_rows 500 df)
          \<and> x \<notin> set (conc_rows 1000 df) \<and> x \<notin> set (rest_rows df))
    \<and> (\<forall>x \<in> set df. scenario (snd x) \<noteq> ''NO INJECTION''
          \<and> concurrency (snd x) \<notin> {Some 300, Some 500, Some 1000} \<longrightarrow> x \<in> set (rest_rows df))"
proof -
  have d: "distinct df" using assms unfolding index_def by (simp add: distinct_map)
  have eq: "custom_order df = noinj_rows df @ conc_rows 300 df @ conc_rows 500 df
      @ conc_rows 1000 df @ rest_rows df"
    by (simp add: custom_order_def)
  have m: "mset (custom_order df) = mset df"
    unfolding eq rest_rows_eq [OF assms] noinj_rows_def conc_rows_def
    by (rule mset_partition5) (auto split: prod.splits)
  have "distinct (custom_order df)"
    using d m by (metis distinct_count_atmost_1 set_mset_mset)
  moreover have "\<forall>x \<in> set df. scenario (snd x) = ''NO INJECTION'' \<longrightarrow>
          x \<in> set (noinj_rows df) \<and> x \<notin> set (conc_rows 300 df) \<and> x \<notin> set (conc_rows 500 df)
          \<and> x \<notin> set (conc_rows 1000 df) \<and> x \<notin> set (rest_rows df)"
    unfolding rest_rows_eq [OF assms] noinj_rows_def conc_rows_def by auto
  moreover have "\<forall>x \<in> set df. scenario (snd x) \<noteq> ''NO INJECTION''
          \<and> concurrency (snd x) \<notin> {Some 300, Some 500, Some 1000} \<longrightarrow> x \<in> set (rest_rows df)"
    unfolding rest_rows_eq [OF assms] by auto
  ultimately show ?thesis using m by blast
qed

theorem custom_order_permutation_witness:
  "distinct (index frame6) \<and> mset (custom_order frame6) = mset frame6
   \<and> (2, run_row ''NO INJECTION'' (Some 300)) \<in> set (noinj_rows frame6)
   \<and> (2, run_row ''NO INJECTION'' (Some 300)) \<notin> set (conc_rows 300 frame6)
   \<and> (4, run_row ''INJ_WAF_WEB'' None) \<in> set (rest_rows frame6)"
proof -
  have m: "(2, run_row ''NO INJECTION'' (Some 300)) \<in> set frame6"
    and n: "(4, run_row ''INJ_WAF_WEB'' None) \<in> set frame6"
    by (simp_all add: frame6_def)
  have s: "scenario (snd (2::nat, run_row ''NO INJECTION'' (Some 300))) = ''NO INJECTION''"
    and t: "scenario (snd (4::nat, run_row ''INJ_WAF_WEB'' None)) \<noteq> ''NO INJECTION''
        \<and> concurrency (snd (4::nat, run_row ''INJ_WAF_WEB'' None)) \<notin> {Some 300, Some 500, Some 1000}"
    by (simp_all add: run_row_def data_init_def)
  from custom_order_permutation [OF frame6_distinct] m n s t frame6_distinct
  show ?thesis by blast
qed

text \<open>
  Claim C5: \<open>convert_to_seconds\<close> maps "65.54ms" to 0.06554, "1.04s" to 1.04, "200us" to
  0.0002 and the empty string to absent (the built-in \<open>float\<close> raises on it). A decimal
  followed by optional whitespace and a unit ms, s or us in any letter case is divided by
  1000 for ms, by 1000000 for us, and left unchanged for s or no unit; a text that does not
  start with a digit, so that the numeric pattern fails, and that \<open>float\<close> rejects yields
  absent. Both variants agree.
\<close>

theorem convert_to_seconds_units:
  assumes "py_float [] = None"
  shows "convert_to_seconds py_float (Some ''65.54ms'') = Some (6554 / 100000)
    \<and> convert_to_seconds py_float (Some ''1.04s'') = Some (104 / 100)
    \<and> convert_to_seconds py_float (Some ''200us'') = Some (2 / 10000)
    \<and> convert_to_seconds py_float (Some []) = None
    \<and> convert_to_seconds_report py_float (Some ''65.54ms'') = Some (6554 / 100000)
    \<and> convert_to_seconds_report py_float (Some ''1.04s'') = Some (104 / 100)
    \<and> convert_to_seconds_report py_float (Some ''200us'') = Some (2 / 10000)
    \<and> convert_to_seconds_report py_float (Some []) = None
    \<and> (is_decimal d \<and> list_all is_space w \<and> lower u \<in> {''ms'', ''s'', ''us'', []} \<longrightarrow>
          convert_to_seconds py_float (Some (d @ w @ u))
            = Some (if lower u = ''ms'' then float_of_decimal d / 1000
                    else if lower u = ''us'' then float_of_decimal d / 1000000
                    else float_of_decimal d)
        \<and> convert_to_seconds_report py_float (Some (d @ w @ u))
            = Some (if lower u = ''ms'' then float_of_decimal d / 1000
                    else if lower u = ''us'' then float_of_decimal d / 1000000
                    else float_of_decimal d))
    \<and> ((strip v = [] \<or> \<not> is_digit (hd (strip v))) \<and> py_float (strip v) = None \<longrightarrow>
          convert_to_seconds py_float (Some v) = None)
    \<and> ((lower (strip v) = [] \<or> \<not> is_digit (hd (lower (strip v))))
          \<and> py_float (lower (strip v)) = None \<longrightarrow>
          convert_to_seconds_report py_float (Some v) = None)"
proof -
  have dec: "is_decimal ''65.54''" "is_decimal ''1.04''" "is_decimal ''200''"
    by code_simp+
  have low: "lower ''ms'' = ''ms''" "lower ''s'' = ''s''" "lower ''us'' = ''us''"
    by code_simp+
  have val: "float_of_decimal ''65.54'' / 1000 = 6554 / 100000"
    "float_of_decimal ''1.04'' = 104 / 100" "float_of_decimal ''200'' / 1000000 = 2 / 10000"
    by code_simp+
  have a1: "convert_to_seconds py_float (Some ''65.54ms'') = Some (6554 / 100000)"
    using convert_to_seconds_number_unit [OF dec(1), of "[]" "''ms''" py_float] low val by simp
  have a2: "convert_to_seconds py_float (Some ''1.04s'') = Some (104 / 100)"
    using convert_to_seconds_number_unit [OF dec(2), of "[]" "''s''" py_float] low val by simp
  have a3: "convert_to_seconds py_float (Some ''200us'') = Some (2 / 10000)"
    using convert_to_seconds_number_unit [OF dec(3), of "[]" "''us''" py_float] low val by simp
  have b1: "convert_to_seconds_report py_float (Some ''65.54ms'') = Some (6554 / 100000)"
    using convert_to_seconds_report_number_unit [OF dec(1), of "[]" "''ms''" py_float] low val
    by simp
  have b2: "convert_to_seconds_report py_float (Some ''1.04s'') = Some (104 / 100)"
    using convert_to_seconds_report_number_unit [OF dec(2), of "[]" "''s''" py_float] low val
    by simp
  have b3: "convert_to_seconds_report py_float (Some ''200us'') = Some (2 / 10000)"
    using convert_to_seconds_report_number_unit [OF dec(3), of "[]" "''us''" py_float] low val
    by simp
  have c: "(strip v = [] \<or> \<not> is_digit (hd (strip v))) \<and> py_float (strip v) = None \<longrightarrow>
          convert_to_seconds py_float (Some v) = None" for v
    by (auto simp: convert_to_seconds_def seconds_no_match)
  have cr: "(lower (strip v) = [] \<or> \<not> is_digit (hd (lower (strip v))))
          \<and> py_float (lower (strip v)) = None \<longrightarrow>
          convert_to_seconds_report py_float (Some v) = None" for v
    by (auto simp: convert_to_seconds_report_def seconds_no_match)
  have e: "strip [] = []" "lower [] = []" by (simp_all add: strip_def lower_def)
  have a4: "convert_to_seconds py_float (Some []) = None"
    using c [of "[]"] assms e by simp
  have b4: "convert_to_seconds_report py_float (Some []) = None"
    using cr [of "[]"] assms e by simp
  have g: "is_decimal d \<and> list_all is_space w \<and> lower u \<in> {''ms'', ''s'', ''us'', []} \<longrightarrow>
          convert_to_seconds py_float (Some (d @ w @ u))
            = Some (if lower u = ''ms'' then float_of_decimal d / 1000
                    else if lower u = ''us'' then float_of_decimal d / 1000000
                    else float_of_decimal d)
        \<and> convert_to_seconds_report py_float (Some (d @ w @ u))
            = Some (if lower u = ''ms'' then float_of_decimal d / 1000
                    else if lower u = ''us'' then float_of_decimal d / 1000000
                    else float_of_decimal d)"
    using convert_to_seconds_number_unit [of d w u py_float]
      convert_to_seconds_report_number_unit [of d w u py_float] by blast
  from a1 a2 a3 a4 b1 b2 b3 b4 g c [of v] cr [of v] show ?thesis by blast
qed

theorem convert_to_seconds_units_witness:
  "convert_to_seconds (\<lambda>s. None) (Some ''65.54 Ms'') = Some (6554 / 100000)
   \<and> convert_to_seconds_report (\<lambda>s. None) (Some ''65.54 Ms'') = Some (6554 / 100000)
   \<and> convert_to_seconds (\<lambda>s. None) (Some ''abc'') = None
   \<and> convert_to_seconds_report (\<lambda>s. None) (Some ''abc'') = None"
proof -
  have h: "is_decimal ''65.54'' \<and> list_all is_space '' '' \<and> lower ''Ms'' \<in> {''ms'', ''s'', ''us'', []}"
    by code_simp
  have l: "lower ''Ms'' = ''ms''" by code_simp
  have v: "float_of_decimal ''65.54'' / 1000 = 6554 / 100000" by code_simp
  have n: "(strip ''abc'' = [] \<or> \<not> is_digit (hd (strip ''abc'')))"
    "(lower (strip ''abc'') = [] \<or> \<not> is_digit (hd (lower (strip ''abc''))))"
    by code_simp+
  from convert_to_seconds_units [of "\<lambda>s. None" "''65.54''" "'' ''" "''Ms''" "''abc''"] h l v n
  show ?thesis by simp
qed

section \<open>The load-test parser\<close>

text \<open>
  Claim C9: \<open>parse_wrk_file\<close> is a total function into the record, with no branch that
  raises: in both variants a field is absent whenever the patterns that feed it do not match
  (requests per second; each percentile, fed by its per-line pattern and, for the trio, the
  inline pattern, for 99\% in the simpler variant the separate 99\% pattern; the socket
  errors; the transfer per second of the richer variant).
\<close>

theorem parse_wrk_file_fields_absent:
  "(re_search no_flags rps_pat text = None \<longrightarrow>
      requests_per_sec (parse_wrk_file py_float text) = None
      \<and> requests_per_sec (parse_wrk_file_report py_float text) = None)
   \<and> (re_search MULTILINE_IGNORECASE (perc_pat ''50'') text = None
        \<and> re_search IGNORECASE inline_pat text = None \<longrightarrow>
      p50 (parse_wrk_file py_float text) = None \<and> p50 (parse_wrk_file_report py_float text) = None)
   \<and> (re_search MULTILINE_IGNORECASE (perc_pat ''75'') text = None
        \<and> re_search IGNORECASE inline_pat text = None \<longrightarrow>
      p75 (parse_wrk_file py_float text) = None \<and> p75 (parse_wrk_file_report py_float text) = None)
   \<and> (re_search MULTILINE_IGNORECASE (perc_pat ''90'') text = None
        \<and> re_search IGNORECASE inline_pat text = None \<longrightarrow>
      p90 (parse_wrk_file py_float text) = None \<and> p90 (parse_wrk_file_report py_float text) = None)
   \<and> (re_search MULTILINE_IGNORECASE (perc_pat ''99'') text = None
        \<and> re_search IGNORECASE p99_pat text = None \<longrightarrow>
      p99 (parse_wrk_file py_float text) = None)
   \<and> (re_search MULTILINE_IGNORECASE (perc_pat ''99'') text = None \<longrightarrow>
      p99 (parse_wrk_file_report py_float text) = None)
   \<and> (re_search no_flags err_pat text = None \<longrightarrow>
      raw_errors (parse_wrk_file py_float text) = None)
   \<and> (re_search no_flags err_pat_report text = None \<longrightarrow>
      socket_errors (parse_wrk_file_report py_float text) = None)
   \<and> (re_search no_flags transfer_pat text = None \<longrightarrow>
      transfer_per_sec (parse_wrk_file_report py_float text) = None)"
  by (simp add: wrk_rps wrk_p50 wrk_p75 wrk_p90 wrk_p99 wrk_errors wrk_transfer)

theorem parse_wrk_file_fields_absent_witness:
  "parse_wrk_file float_raises ''no figures'' = res_init
   \<and> parse_wrk_file_report float_raises ''no figures'' = res_init"
proof -
  have n: "re_search no_flags rps_pat ''no figures'' = None"
    "re_search MULTILINE_IGNORECASE (perc_pat ''50'') ''no figures'' = None"
    "re_search MULTILINE_IGNORECASE (perc_pat ''75'') ''no figures'' = None"
    "re_search MULTILINE_IGNORECASE (perc_pat ''90'') ''no figures'' = None"
    "re_search MULTILINE_IGNORECASE (perc_pat ''99'') ''no figures'' = None"
    "re_search IGNORECASE inline_pat ''no figures'' = None"
    "re_search IGNORECASE p99_pat ''no figures'' = None"
    "re_search no_flags err_pat ''no figures'' = None"
    "re_search no_flags err_pat_report ''no figures'' = None"
    "re_search no_flags transfer_pat ''no figures'' = None"
    by code_simp+
  have s: "socket_errors (parse_wrk_file float_raises ''no figures'') = None"
    "transfer_per_sec (parse_wrk_file float_raises ''no figures'') = None"
    "raw_errors (parse_wrk_file_report float_raises ''no figures'') = None"
    by (simp_all add: parse_wrk_file_unfold parse_wrk_file_report_unfold per_line_loop)
  from parse_wrk_file_fields_absent [of "''no figures''" float_raises] n s
  show ?thesis by (simp add: res_init_def)
qed

text \<open>
  Claim C4, as amended: the inline pattern assigns the trio only; it leaves 99\% and every
  other field as they were. In the simpler variant it is tried on every text and, where it
  matches, its three values replace those of the per-line search, and 99\% is taken from the
  separate search made after it, or from the per-line search where that one fails. In the
  richer variant 99\% comes from the per-line search only, which runs before the inline
  pattern.
\<close>

theorem inline_pattern_frame:
  "p99 (step_inline conv py_float text res) = p99 res
   \<and> requests_per_sec (step_inline conv py_float text res) = requests_per_sec res
   \<and> raw_errors (step_inline conv py_float text res) = raw_errors res
   \<and> socket_errors (step_inline conv py_float text res) = socket_errors res
   \<and> transfer_per_sec (step_inline conv py_float text res) = transfer_per_sec res
   \<and> p50 (parse_wrk_file py_float text)
       = (case re_search IGNORECASE inline_pat text of
            Some i \<Rightarrow> convert_to_seconds py_float (i 1)
          | None \<Rightarrow> (case re_search MULTILINE_IGNORECASE (perc_pat ''50'') text of
                       Some mm \<Rightarrow> convert_to_seconds py_float (mm 1) | None \<Rightarrow> None))
   \<and> p75 (parse_wrk_file py_float text)
       = (case re_search IGNORECASE inline_pat text of
            Some i \<Rightarrow> convert_to_seconds py_float (i 2)
          | None \<Rightarrow> (case re_search MULTILINE_IGNORECASE (perc_pat ''75'') text of
                       Some mm \<Rightarrow> convert_to_seconds py_float (mm 1) | None \<Rightarrow> None))
   \<and> p90 (parse_wrk_file py_float text)
       = (case re_search IGNORECASE inline_pat text of
            Some i \<Rightarrow> convert_to_seconds py_float (i 3)
          | None \<Rightarrow> (case re_search MULTILINE_IGNORECASE (perc_pat ''90'') text of
                       Some mm \<Rightarrow> convert_to_seconds py_float (mm 1) | None \<Rightarrow> None))
   \<and> p99 (parse_wrk_file py_float text)
       = (case re_search IGNORECASE p99_pat text of
            Some m99 \<Rightarrow> convert_to_seconds py_float (m99 1)
          | None \<Rightarrow> (case re_search MULTILINE_IGNORECASE (perc_pat ''99'') text of
                       Some mm \<Rightarrow> convert_to_seconds py_float (mm 1) | None \<Rightarrow> None))
   \<and> p99 (parse_wrk_file_report py_float text)
       = (case re_search MULTILINE_IGNORECASE (perc_pat ''99'') text of
            Some mm \<Rightarrow> convert_to_seconds_report py_float (mm 1) | None \<Rightarrow> None)"
  by (simp add: wrk_p50 wrk_p75 wrk_p90 wrk_p99)

text \<open>
  The claim as stated fails on a log that has the trio on one line and also one
  percentile per line: the per-line search finds 1ms for 50\%, yet the simpler variant
  returns the 5ms of the inline pattern; and the 99\% figure, which a search of its own
  finds, is absent in the richer variant, which has no such search.
\<close>

theorem inline_pattern_counterexample:
  "map_option (\<lambda>mm. mm 1) (re_search MULTILINE_IGNORECASE (perc_pat ''50'') wrk_text_both)
     = Some (Some ''1ms'')
   \<and> p50 (parse_wrk_file float_raises wrk_text_both) = Some (5 / 1000)
   \<and> map_option (\<lambda>m99. m99 1) (re_search IGNORECASE p99_pat wrk_text_both) = Some (Some ''5ms'')
   \<and> p99 (parse_wrk_file_report float_raises wrk_text_both) = None"
  by code_simp

section \<open>The CPU parser\<close>

lemma ngroups_cpu [simp]:
  "ngroups cpu_pat_full = 3" "ngroups cpu_pat_samples = 2" "ngroups cpu_pat_min = 1"
  by (simp_all add: cpu_pat_full_def cpu_pat_samples_def cpu_pat_min_def seq_def number_def
      ws_def dotstar_def)

lemma parse_avg_cpu_file_unfold:
  "parse_avg_cpu_file text =
     (case re_search IGNORECASE_DOTALL cpu_pat_full text of
        Some m \<Rightarrow> Some \<lparr>busy = Some (float_of_decimal (group m 1)),
                        idle = Some (float_of_decimal (group m 2)),
                        samples = Some (int_of_digits (group m 3))\<rparr>
      | None \<Rightarrow>
     (case re_search IGNORECASE_DOTALL cpu_pat_samples text of
        Some m \<Rightarrow> Some \<lparr>busy = Some (float_of_decimal (group m 1)), idle = None,
                        samples = Some (int_of_digits (group m 2))\<rparr>
      | None \<Rightarrow>
     (case re_search IGNORECASE_DOTALL cpu_pat_min text of
        Some m \<Rightarrow> Some \<lparr>busy = Some (float_of_decimal (group m 1)), idle = None,
                        samples = None\<rparr>
      | None \<Rightarrow>
     (case re_search IGNORECASE cpu_pat_idle text of
        Some m2 \<Rightarrow> Some \<lparr>busy = None, idle = Some (float_of_decimal (group m2 1)),
                         samples = None\<rparr>
      | None \<Rightarrow> None))))"
  by (simp add: parse_avg_cpu_file_def split: option.splits)

lemma cpu_record_has_value:
  "parse_avg_cpu_file text = Some r \<Longrightarrow> busy r \<noteq> None \<or> idle r \<noteq> None"
  "parse_avg_cpu_file_report text = Some r \<Longrightarrow> busy r \<noteq> None \<or> idle r \<noteq> None"
  by (auto simp: parse_avg_cpu_file_unfold parse_avg_cpu_file_report_def Let_def
      split: option.splits)

lemma idle_search_token:
  assumes "re_search IGNORECASE cpu_pat_idle text = Some m"
  shows "idle_token text (group m 1)"
proof -
  from re_search_sound [OF assms] obtain pre u v where
    t: "text = pre @ u @ v" and m: "rmc IGNORECASE cpu_pat_idle (lastp None pre) u v Map.empty m"
    by blast
  from m obtain a w1 w2 I w3 where "u = a @ w1 @ ''='' @ w2 @ I @ w3 @ ''%''"
    "lower a = ''avg idle''" "list_all is_space w1" "list_all is_space w2"
    "list_all is_space w3" "is_decimal I" "m = [1 \<mapsto> I]"
    unfolding rmc_cpu_pat_idle by blast
  then have "text = pre @ a @ w1 @ ''='' @ w2 @ I @ w3 @ ''%'' @ v \<and> lower a = ''avg idle''
    \<and> list_all is_space w1 \<and> list_all is_space w2 \<and> list_all is_space w3
    \<and> is_decimal (group m 1) \<and> group m 1 = I"
    using t by (simp add: group_def)
  then show ?thesis unfolding idle_token_def by blast
qed

text \<open>
  Claim C2, as amended: a record returned by \<open>parse_avg_cpu_file\<close> has busy or idle
  present, in both variants. When none of the busy patterns matches and the idle pattern
  captures \<open>I\<close>, an idle clause of the text, the simpler variant returns idle = I with busy
  and samples absent. The richer variant returns idle = I, no samples and
  busy = round(100.0 - I, 2) as binary floating point computes it, for \<open>I\<close> in the range of
  the doubles: the double nearest to I is subtracted from 100, the difference is rounded to
  the nearest double, and that double is rounded to two decimals on its exact value, a tie
  going to the even one.
\<close>

theorem parse_avg_cpu_file_idle_only:
  "(parse_avg_cpu_file text = Some r \<longrightarrow> busy r \<noteq> None \<or> idle r \<noteq> None)
   \<and> (parse_avg_cpu_file_report text = Some r \<longrightarrow> busy r \<noteq> None \<or> idle r \<noteq> None)
   \<and> (re_search IGNORECASE_DOTALL cpu_pat_full text = None
        \<and> re_search IGNORECASE_DOTALL cpu_pat_samples text = None
        \<and> re_search IGNORECASE_DOTALL cpu_pat_min text = None
        \<and> map_option (\<lambda>m. group m 1) (re_search IGNORECASE cpu_pat_idle text) = Some I \<longrightarrow>
      idle_token text I
      \<and> parse_avg_cpu_file text
          = Some \<lparr>busy = None, idle = Some (float_of_decimal I), samples = None\<rparr>)
   \<and> (re_search IGNORECASE_DOTALL cpu_pat_full text = None
        \<and> re_search IGNORECASE cpu_pat_samples text = None
        \<and> re_search IGNORECASE cpu_pat_min text = None
        \<and> map_option (\<lambda>m. group m 1) (re_search IGNORECASE cpu_pat_idle text) = Some I
        \<and> float_of_decimal I \<le> max_double \<longrightarrow>
      idle_token text I
      \<and> parse_avg_cpu_file_report text
          = Some \<lparr>busy = Some (round2 (double (100 - double (float_of_decimal I)))),
                  idle = Some (float_of_decimal I), samples = None\<rparr>)"
proof -
  have tok: "idle_token text I"
    if "map_option (\<lambda>m. group m 1) (re_search IGNORECASE cpu_pat_idle text) = Some I"
    using that idle_search_token [of "text"] by auto
  have s: "parse_avg_cpu_file text
          = Some \<lparr>busy = None, idle = Some (float_of_decimal I), samples = None\<rparr>"
    if "re_search IGNORECASE_DOTALL cpu_pat_full text = None"
      "re_search IGNORECASE_DOTALL cpu_pat_samples text = None"
      "re_search IGNORECASE_DOTALL cpu_pat_min text = None"
      "map_option (\<lambda>m. group m 1) (re_search IGNORECASE cpu_pat_idle text) = Some I"
    using that by (auto simp: parse_avg_cpu_file_unfold)
  have r: "parse_avg_cpu_file_report text
          = Some \<lparr>busy = Some (round2 (double (100 - double (float_of_decimal I)))),
                  idle = Some (float_of_decimal I), samples = None\<rparr>"
    if "re_search IGNORECASE_DOTALL cpu_pat_full text = None"
      "re_search IGNORECASE cpu_pat_samples text = None"
      "re_search IGNORECASE cpu_pat_min text = None"
      "map_option (\<lambda>m. group m 1) (re_search IGNORECASE cpu_pat_idle text) = Some I"
    using that by (auto simp: parse_avg_cpu_file_report_def Let_def)
  from tok s r cpu_record_has_value [of "text" r] show ?thesis by blast
qed

text \<open>At an idle percentage of 88.255 the double subtraction gives a number above 11.745 and
  the richer variant returns 11.75, where 100 - 88.255 rounded as a decimal would be 11.74.\<close>

theorem parse_avg_cpu_file_idle_only_witness:
  "idle_token ''load: avg idle = 88.255 %'' ''88.255''
   \<and> parse_avg_cpu_file ''load: avg idle = 88.255 %''
       = Some \<lparr>busy = None, idle = Some (88255 / 1000), samples = None\<rparr>
   \<and> parse_avg_cpu_file_report ''load: avg idle = 88.255 %''
       = Some \<lparr>busy = Some (1175 / 100), idle = Some (88255 / 1000), samples = None\<rparr>"
proof -
  have n: "re_search IGNORECASE_DOTALL cpu_pat_full ''load: avg idle = 88.255 %'' = None"
    "re_search IGNORECASE_DOTALL cpu_pat_samples ''load: avg idle = 88.255 %'' = None"
    "re_search IGNORECASE_DOTALL cpu_pat_min ''load: avg idle = 88.255 %'' = None"
    "re_search IGNORECASE cpu_pat_samples ''load: avg idle = 88.255 %'' = None"
    "re_search IGNORECASE cpu_pat_min ''load: avg idle = 88.255 %'' = None"
    "map_option (\<lambda>m. group m 1) (re_search IGNORECASE cpu_pat_idle ''load: avg idle = 88.255 %'')
       = Some ''88.255''"
    by code_simp+
  have v: "float_of_decimal ''88.255'' = 88255 / 1000"
    "round2 (double (100 - double (88255 / 1000))) = 1175 / 100"
    by code_simp+
  have m: "88255 / 1000 \<le> max_double" by (simp add: max_double_def)
  from parse_avg_cpu_file_idle_only [of "''load: avg idle = 88.255 %''" _ "''88.255''"] n v m
  show ?thesis by simp
qed

text \<open>The claim as stated fails in the simpler variant: with only an idle clause in the text,
  busy is absent, not 100 - idle.\<close>

theorem parse_avg_cpu_file_idle_only_counterexample:
  "re_search IGNORECASE_DOTALL cpu_pat_full ''avg idle=88.25%'' = None
   \<and> re_search IGNORECASE_DOTALL cpu_pat_samples ''avg idle=88.25%'' = None
   \<and> re_search IGNORECASE_DOTALL cpu_pat_min ''avg idle=88.25%'' = None
   \<and> parse_avg_cpu_file ''avg idle=88.25%''
       = Some \<lparr>busy = None, idle = Some (8825 / 100), samples = None\<rparr>"
  by code_simp

section \<open>The files of a run\<close>























section \<open>The concurrency of a run\<close>

lemma search_from_leftmost:
  "search_from fl r p s = Some c \<Longrightarrow>
     \<exists>pre u v. s = pre @ u @ v \<and> rmc fl r (lastp p pre) u v Map.empty c
       \<and> (\<forall>pre' u' v' c'. s = pre' @ u' @ v' \<and> length pre' < length pre
            \<longrightarrow> \<not> rmc fl r (lastp p pre') u' v' Map.empty c')"
proof (induction s arbitrary: p)
  case Nil
  then have "rmatch fl r (\<lambda>p' s' c'. Some c') p [] Map.empty = Some c" by simp
  from rmatch_sound [OF this] obtain u v where "[] = u @ v" "rmc fl r p u v Map.empty c" by auto
  then have "[] = [] @ u @ v \<and> rmc fl r (lastp p []) u v Map.empty c
      \<and> (\<forall>pre' u' v' c'. [] = pre' @ u' @ v' \<and> length pre' < length ([]::string)
            \<longrightarrow> \<not> rmc fl r (lastp p pre') u' v' Map.empty c')"
    by simp
  then show ?case by (intro exI [of _ "[]"] exI [of _ u] exI [of _ v])
next
  case (Cons y ys)
  show ?case
  proof (cases "rmatch fl r (\<lambda>p' s' c'. Some c') p (y # ys) Map.empty")
    case (Some d)
    with Cons.prems have "rmatch fl r (\<lambda>p' s' c'. Some c') p (y # ys) Map.empty = Some c" by simp
    from rmatch_sound [OF this] obtain u v where
      "y # ys = u @ v" "rmc fl r p u v Map.empty c" by auto
    then have "y # ys = [] @ u @ v \<and> rmc fl r (lastp p []) u v Map.empty c
      \<and> (\<forall>pre' u' v' c'. y # ys = pre' @ u' @ v' \<and> length pre' < length ([]::string)
            \<longrightarrow> \<not> rmc fl r (lastp p pre') u' v' Map.empty c')"
      by simp
    then show ?thesis by (intro exI [of _ "[]"] exI [of _ u] exI [of _ v])
  next
    case None
    with Cons.prems have "search_from fl r (Some y) ys = Some c" by simp
    from Cons.IH [OF this] obtain pre u v where
      ys: "ys = pre @ u @ v" and m: "rmc fl r (lastp (Some y) pre) u v Map.empty c"
      and l: "\<forall>pre' u' v' c'. ys = pre' @ u' @ v' \<and> length pre' < length pre
            \<longrightarrow> \<not> rmc fl r (lastp (Some y) pre') u' v' Map.empty c'"
      by (elim exE conjE)
    have first: "\<not> rmc fl r (lastp p pre') u' v' Map.empty c'"
      if "y # ys = pre' @ u' @ v'" "length pre' < length (y # pre)" for pre' u' v' c'
    proof (cases pre')
      case Nil
      show ?thesis
      proof
        assume "rmc fl r (lastp p pre') u' v' Map.empty c'"
        then have "rmc fl r p u' v' Map.empty c'" using Nil by simp
        from rmatch_complete [OF this, of "\<lambda>p' s' c'. Some c'" c']
        obtain z where "rmatch fl r (\<lambda>p' s' c'. Some c') p (u' @ v') Map.empty = Some z" by auto
        with that(1) Nil None show False by simp
      qed
    next
      case (Cons y' pre'')
      with that have "ys = pre'' @ u' @ v'" "length pre'' < length pre" "y' = y" by auto
      with l [rule_format, of pre'' u' v' c']
      have "\<not> rmc fl r (lastp (Some y) pre'') u' v' Map.empty c'" by simp
      then show ?thesis using Cons \<open>y' = y\<close> by simp
    qed
    have all: "\<forall>pre' u' v' c'. y # ys = pre' @ u' @ v' \<and> length pre' < length (y # pre)
            \<longrightarrow> \<not> rmc fl r (lastp p pre') u' v' Map.empty c'"
    proof (intro allI impI)
      fix pre' u' v' c'
      assume "y # ys = pre' @ u' @ v' \<and> length pre' < length (y # pre)"
      then show "\<not> rmc fl r (lastp p pre') u' v' Map.empty c'"
        using first [of pre' u' v' c'] by simp
    qed
    have "y # ys = (y # pre) @ u @ v \<and> rmc fl r (lastp p (y # pre)) u v Map.empty c"
      using ys m by simp
    with all show ?thesis by (intro exI [of _ "y # pre"] exI [of _ u] exI [of _ v]) simp
  qed
qed

lemma re_search_leftmost:
  "re_search fl r s = Some c \<Longrightarrow>
     \<exists>pre u v. s = pre @ u @ v \<and> rmc fl r (lastp None pre) u v Map.empty c
       \<and> (\<forall>pre' u' v' c'. s = pre' @ u' @ v' \<and> length pre' < length pre
            \<longrightarrow> \<not> rmc fl r (lastp None pre') u' v' Map.empty c')"
  unfolding re_search_def by (rule search_from_leftmost)

lemma re_search_None:
  "re_search fl r (pre @ u @ v) = None \<Longrightarrow> \<not> rmc fl r (lastp None pre) u v Map.empty c"
  using re_search_complete [of fl r pre u v c] by auto


lemma before_iff:
  "(case lastp None pre of None \<Rightarrow> True | Some x \<Rightarrow> \<not> is_digit x)
     \<longleftrightarrow> pre = [] \<or> \<not> is_digit (last pre)"
  by (simp add: lastp_def)

lemma after_iff:
  "(case v of [] \<Rightarrow> True | x # xs \<Rightarrow> \<not> is_digit x) \<longleftrightarrow> v = [] \<or> \<not> is_digit (hd v)"
  by (cases v) simp_all

lemma rmc_conc_pat:
  "rmc no_flags conc_pat (lastp None pre) u v Map.empty c' \<longleftrightarrow>
     list_all is_digit u \<and> 2 \<le> length u \<and> length u \<le> 5
     \<and> (pre = [] \<or> \<not> is_digit (last pre)) \<and> (v = [] \<or> \<not> is_digit (hd v))
     \<and> c' = [1 \<mapsto> u]"
proof -
  have "rmc no_flags conc_pat (lastp None pre) u v Map.empty c' \<longleftrightarrow>
     (case lastp None pre of None \<Rightarrow> True | Some x \<Rightarrow> \<not> is_digit x)
     \<and> list_all is_digit u \<and> 2 \<le> length u \<and> length u \<le> 5
     \<and> (case v of [] \<Rightarrow> True | x # xs \<Rightarrow> \<not> is_digit x) \<and> c' = [1 \<mapsto> u]"
    unfolding conc_pat_def
    by (simp add: rmc.simps upto_max_def cong: option.case_cong list.case_cong)
  then show ?thesis unfolding before_iff after_iff by blast
qed

lemma standalone_at_rmc:
  "standalone_at name pre d \<longleftrightarrow>
     (\<exists>post. name = pre @ d @ post \<and> rmc no_flags conc_pat (lastp None pre) d post Map.empty [1 \<mapsto> d])"
  unfolding standalone_at_def rmc_conc_pat by simp

lemma first_number_Some:
  assumes "first_number name = Some n"
  shows "\<exists>pre d. standalone_at name pre d \<and> n = int_of_digits d
     \<and> (\<forall>pre' d'. standalone_at name pre' d' \<longrightarrow> length pre \<le> length pre')"
proof -
  from assms obtain m where s: "re_search no_flags conc_pat name = Some m"
    and n: "n = int_of_digits (group m 1)"
    by (auto simp: first_number_def name_number_def)
  from re_search_leftmost [OF s] obtain pre u v where
    name: "name = pre @ u @ v" and m: "rmc no_flags conc_pat (lastp None pre) u v Map.empty m"
    and l: "\<forall>pre' u' v' c'. name = pre' @ u' @ v' \<and> length pre' < length pre
            \<longrightarrow> \<not> rmc no_flags conc_pat (lastp None pre') u' v' Map.empty c'"
    by blast
  from m have mu: "m = [1 \<mapsto> u]" by (simp add: rmc_conc_pat)
  have a: "standalone_at name pre u" unfolding standalone_at_rmc using name m mu by blast
  have b: "n = int_of_digits u" using n mu by (simp add: group_def)
  have c: "length pre \<le> length pre'" if "standalone_at name pre' d'" for pre' d'
  proof (rule ccontr)
    assume "\<not> length pre \<le> length pre'"
    then have "length pre' < length pre" by simp
    moreover from that obtain post where "name = pre' @ d' @ post"
      "rmc no_flags conc_pat (lastp None pre') d' post Map.empty [1 \<mapsto> d']"
      unfolding standalone_at_rmc by blast
    ultimately show False using l by blast
  qed
  from a b c show ?thesis by blast
qed

lemma first_number_None:
  assumes "first_number name = None"
  shows "\<not> standalone_at name pre d"
proof
  assume "standalone_at name pre d"
  then obtain post where name: "name = pre @ d @ post"
    and m: "rmc no_flags conc_pat (lastp None pre) d post Map.empty [1 \<mapsto> d]"
    unfolding standalone_at_rmc by blast
  from assms have "re_search no_flags conc_pat (pre @ d @ post) = None"
    by (simp add: first_number_def name_number_def name)
  from re_search_None [OF this] m show False by blast
qed

lemma accepted_simple:
  "(num \<in> set [50, 100, 200, 300, 500, 1000, 2000, 4000] \<or> 100 \<le> num) \<longleftrightarrow> accepted num"
  by (auto simp: accepted_def)

lemma accepted_report:
  "(num \<in> set [50, 100, 200, 300, 500, 1000, 2000] \<or> 100 < num) \<longleftrightarrow> accepted num"
  by (auto simp: accepted_def)

lemma scan_step:
  assumes "re_search no_flags conc_pat (nname f) = Some m"
  shows "scan_concurrency (f # fs)
       = (if accepted (int_of_digits (group m 1)) then Some (int_of_digits (group m 1))
          else scan_concurrency fs)"
    and "scan_concurrency_report (f # fs)
       = (if accepted (int_of_digits (group m 1)) then Some (int_of_digits (group m 1))
          else scan_concurrency_report fs)"
    and "List.map_filter (\<lambda>f. first_number (nname f)) (f # fs)
       = int_of_digits (group m 1) # List.map_filter (\<lambda>f. first_number (nname f)) fs"
  by (simp_all only: scan_concurrency.simps scan_concurrency_report.simps assms option.case Let_def
      accepted_simple accepted_report List.map_filter_simps first_number_def name_number_def
      option.map)

lemma scan_skip:
  assumes "re_search no_flags conc_pat (nname f) = None"
  shows "scan_concurrency (f # fs) = scan_concurrency fs"
    and "scan_concurrency_report (f # fs) = scan_concurrency_report fs"
    and "List.map_filter (\<lambda>f. first_number (nname f)) (f # fs)
       = List.map_filter (\<lambda>f. first_number (nname f)) fs"
  by (simp_all only: scan_concurrency.simps scan_concurrency_report.simps assms option.case
      List.map_filter_simps first_number_def name_number_def option.map)

lemma scan_concurrency_find:
  "scan_concurrency files
     = List.find accepted (List.map_filter (\<lambda>f. first_number (nname f)) files)"
proof (induction files)
  case Nil
  then show ?case by (simp add: List.map_filter_simps)
next
  case (Cons f fs)
  show ?case
  proof (cases "re_search no_flags conc_pat (nname f)")
    case None
    show ?thesis unfolding scan_skip [OF None] by (rule Cons.IH)
  next
    case (Some m)
    show ?thesis unfolding scan_step [OF Some] find.simps Cons.IH ..
  qed
qed

lemma scan_concurrency_report_find:
  "scan_concurrency_report files
     = List.find accepted (List.map_filter (\<lambda>f. first_number (nname f)) files)"
proof (induction files)
  case Nil
  then show ?case by (simp add: List.map_filter_simps)
next
  case (Cons f fs)
  show ?case
  proof (cases "re_search no_flags conc_pat (nname f)")
    case None
    show ?thesis unfolding scan_skip [OF None] by (rule Cons.IH)
  next
    case (Some m)
    show ?thesis unfolding scan_step [OF Some] find.simps Cons.IH ..
  qed
qed

lemma name_concurrency_eq:
  "name_concurrency pat conc slot
     = (case conc of Some n \<Rightarrow> Some n
        | None \<Rightarrow> Option.bind slot (\<lambda>f. name_number pat (nname f)))"
  by (simp add: name_concurrency_def name_number_def split: option.splits)

text \<open>
  Claim C7, as amended: the scan goes through the file names in iteration order, reads in
  each the first standalone number of two to five digits (the leftmost one, and no other
  number of that name), and takes the first number read that is 50 or at least 100, which
  is what "in the canonical set or greater than 100" comes to in both variants. Where the
  scan finds none, the simpler variant reads the first run of two to five digits of the name
  of the ips CPU file, and then the digits after the first "c<digits>" of the load-test
  file name; the richer variant has no CPU-file stage and goes to the load-test file name
  at once. Concurrency is absent when every stage fails.
\<close>

theorem derive_concurrency_stages:
  "scan_concurrency files
     = List.find accepted (List.map_filter (\<lambda>f. first_number (nname f)) files)
   \<and> scan_concurrency_report files = scan_concurrency files
   \<and> derive_concurrency files avg_ips wrk_file
       = (case scan_concurrency files of
            Some n \<Rightarrow> Some n
          | None \<Rightarrow>
              (case Option.bind avg_ips (\<lambda>f. name_number digits25_pat (nname f)) of
                 Some n \<Rightarrow> Some n
               | None \<Rightarrow> Option.bind wrk_file (\<lambda>f. name_number c_digits_pat (nname f))))
   \<and> derive_concurrency_report files wrk
       = (case scan_concurrency files of
            Some n \<Rightarrow> Some n
          | None \<Rightarrow> Option.bind wrk (\<lambda>f. name_number c_digits_pat (nname f)))
   \<and> (first_number name = Some n \<longrightarrow>
        (\<exists>pre d. standalone_at name pre d \<and> n = int_of_digits d
           \<and> (\<forall>pre' d'. standalone_at name pre' d' \<longrightarrow> length pre \<le> length pre')))
   \<and> (first_number name = None \<longrightarrow> (\<forall>pre d. \<not> standalone_at name pre d))"
proof -
  have r: "scan_concurrency_report files = scan_concurrency files"
    by (simp only: scan_concurrency_find scan_concurrency_report_find)
  have d: "derive_concurrency files avg_ips wrk_file
       = (case scan_concurrency files of
            Some n \<Rightarrow> Some n
          | None \<Rightarrow>
              (case Option.bind avg_ips (\<lambda>f. name_number digits25_pat (nname f)) of
                 Some n \<Rightarrow> Some n
               | None \<Rightarrow> Option.bind wrk_file (\<lambda>f. name_number c_digits_pat (nname f))))"
    by (simp add: derive_concurrency_def name_concurrency_eq split: option.splits)
  have dr: "derive_concurrency_report files wrk
       = (case scan_concurrency files of
            Some n \<Rightarrow> Some n
          | None \<Rightarrow> Option.bind wrk (\<lambda>f. name_number c_digits_pat (nname f)))"
    by (simp add: derive_concurrency_report_def name_concurrency_eq r split: option.splits)
  from scan_concurrency_find [of files] r d dr first_number_Some [of name n]
    first_number_None [of name]
  show ?thesis by blast
qed

theorem derive_concurrency_stages_witness:
  "first_number ''wrk_c500_run12.txt'' = Some 500
   \<and> (\<exists>pre d. standalone_at ''wrk_c500_run12.txt'' pre d \<and> 500 = int_of_digits d
        \<and> (\<forall>pre' d'. standalone_at ''wrk_c500_run12.txt'' pre' d' \<longrightarrow> length pre \<le> length pre'))
   \<and> first_number ''notes.txt'' = None
   \<and> (\<forall>pre d. \<not> standalone_at ''notes.txt'' pre d)"
proof -
  have h: "first_number ''wrk_c500_run12.txt'' = Some 500" "first_number ''notes.txt'' = None"
    by code_simp+
  from derive_concurrency_stages [of _ _ _ _ "''wrk_c500_run12.txt''" 500]
    derive_concurrency_stages [of _ _ _ _ "''notes.txt''"] h
  show ?thesis by blast
qed

text \<open>The claim as stated fails in the richer variant: in a run directory whose only file is
  the CPU log AVG\_CPU\_ips\_12.txt the scan rejects 12, the name of the CPU file yields 12
  (the concurrency of the simpler variant), and the richer variant leaves concurrency
  absent.\<close>

theorem derive_concurrency_counterexample:
  "fst (find_avg_report [cpu_log_12]) = Some cpu_log_12
   \<and> name_number digits25_pat (nname cpu_log_12) = Some 12
   \<and> derive_concurrency_report [cpu_log_12] (find_wrk_report [cpu_log_12]) = None
   \<and> derive_concurrency [cpu_log_12] (fst (find_avg [cpu_log_12])) (find_wrk [cpu_log_12])
       = Some 12"
  by code_simp

section \<open>The walk over the runs\<close>

text \<open>
  Claim C8 at a failing input: the first run has no load-test file, and an entry that is a
  directory whose name contains "avg\_cpu\_ips". The richer variant takes the directory for
  the CPU file of the role ips without asking whether it is a regular file, reads it, and
  the exception ends the walk: no row for this run, none for the second run. The simpler
  variant, which asks \<open>is_file\<close> in every loop, records both runs, the first with its
  load-test fields absent and one entry for the missing load-test file.
\<close>

theorem collect_results_report_raises:
  "find_wrk_report [Dir ''AVG_CPU_ips_500'' []] = None
   \<and> collect_results_report float_raises ''results'' results_tree = Inl IsADirectoryError
   \<and> map_sum id (\<lambda>(rows, missing). (map run rows, map row_requests_per_sec rows, missing))
        (collect_results float_raises ''results'' results_tree)
      = Inr ([''run 1'', ''run 2''], [None, Some (5234 / 10)],
             [''results/INJ_WEB/run 1/AVG_CPU_ips_*.txt'',
              ''results/INJ_WEB/run 1/AVG_CPU_waf_*.txt'',
              ''results/INJ_WEB/run 1/*wrk*.txt'',
              ''results/INJ_WEB/run 2/AVG_CPU_waf_*.txt''])"
  by code_simp

section \<open>The richest CPU-log pattern\<close>

lemma rmc_cpu_pat_full_D:
  assumes "rmc IGNORECASE_DOTALL cpu_pat_full p u v c c'"
  shows "\<exists>a n1 w1 B w2 n2 i w3 w4 I w5 n3 ov w6 S w7 sm.
     u = a @ n1 @ ''='' @ w1 @ B @ w2 @ ''%'' @ n2 @ i @ w3 @ ''='' @ w4 @ I @ w5 @ ''%'' @ n3
           @ ov @ w6 @ S @ w7 @ sm
     \<and> lower a = ''avg busy'' \<and> lower i = ''avg idle'' \<and> lower ov = ''over''
     \<and> lower sm = ''samples''
     \<and> list_all is_space w1 \<and> list_all is_space w2 \<and> list_all is_space w3
     \<and> list_all is_space w4 \<and> list_all is_space w5 \<and> list_all is_space w6
     \<and> list_all is_space w7
     \<and> is_decimal B \<and> is_decimal I \<and> is_digits S
     \<and> c' = c(1 \<mapsto> B, 2 \<mapsto> I, 3 \<mapsto> S)"
proof -
  from assms obtain a n1 e1 w1 B w2 pc1 n2 i w3 e2 w4 I w5 pc2 n3 ov w6 S w7 sm where
    "u = a @ n1 @ e1 @ w1 @ B @ w2 @ pc1 @ n2 @ i @ w3 @ e2 @ w4 @ I @ w5 @ pc2 @ n3
           @ ov @ w6 @ S @ w7 @ sm"
    "lower a = ''avg busy''" "e1 = ''=''" "list_all is_space w1" "is_decimal B"
    "list_all is_space w2" "pc1 = ''%''" "lower i = ''avg idle''" "list_all is_space w3"
    "e2 = ''=''" "list_all is_space w4" "is_decimal I" "list_all is_space w5" "pc2 = ''%''"
    "lower ov = ''over''" "list_all is_space w6" "is_digits S" "list_all is_space w7"
    "lower sm = ''samples''" "c' = c(1 \<mapsto> B, 2 \<mapsto> I, 3 \<mapsto> S)"
    unfolding cpu_pat_full_def by (auto cong: conj_cong)
  then show ?thesis by blast
qed


lemma rmc_cpu_pat_full_I:
  assumes f: "lower a = ''avg busy''" "lower i = ''avg idle''" "lower ov = ''over''"
    "lower sm = ''samples''"
    "list_all is_space w1" "list_all is_space w2" "list_all is_space w3" "list_all is_space w4"
    "list_all is_space w5" "list_all is_space w6" "list_all is_space w7"
    "is_decimal B" "is_decimal I" "is_digits S"
  shows "rmc IGNORECASE_DOTALL cpu_pat_full p
     (a @ n1 @ ''='' @ w1 @ B @ w2 @ ''%'' @ n2 @ i @ w3 @ ''='' @ w4 @ I @ w5 @ ''%'' @ n3
        @ ov @ w6 @ S @ w7 @ sm) v c (c(1 \<mapsto> B, 2 \<mapsto> I, 3 \<mapsto> S))"
  unfolding cpu_pat_full_def
  apply (rule rmc_seq_ConsI, simp add: f)
  apply (rule rmc_seq_ConsI, simp add: f)
  apply (rule rmc_seq_ConsI, simp add: f)
  apply (rule rmc_seq_ConsI, simp add: f)
  apply (rule rmc_seq_ConsI, simp add: f)
  apply (rule rmc_seq_ConsI, simp add: f)
  apply (rule rmc_seq_ConsI, simp add: f)
  apply (rule rmc_seq_ConsI, simp add: f)
  apply (rule rmc_seq_ConsI, simp add: f)
  apply (rule rmc_seq_ConsI, simp add: f)
  apply (rule rmc_seq_ConsI, simp add: f)
  apply (rule rmc_seq_ConsI, simp add: f)
  apply (rule rmc_seq_ConsI, simp add: f)
  apply (rule rmc_seq_ConsI, simp add: f)
  apply (rule rmc_seq_ConsI, simp add: f)
  apply (rule rmc_seq_ConsI, simp add: f)
  apply (rule rmc_seq_ConsI, simp add: f)
  apply (rule rmc_seq_ConsI, simp add: f)
  apply (rule rmc_seq_ConsI, simp add: f)
  apply (rule rmc_seq_ConsI, simp add: f)
  apply (rule rmc_seq_lastI, simp add: f)
  done

lemma cpu_full_search_sound:
  assumes "re_search IGNORECASE_DOTALL cpu_pat_full text = Some m"
  shows "\<exists>B I S. cpu_line text B I S \<and> m 1 = Some B \<and> m 2 = Some I \<and> m 3 = Some S"
proof -
  from re_search_sound [OF assms] obtain pre u v where
    t: "text = pre @ u @ v"
    and m: "rmc IGNORECASE_DOTALL cpu_pat_full (lastp None pre) u v Map.empty m"
    by blast
  from rmc_cpu_pat_full_D [OF m] obtain a n1 w1 B w2 n2 i w3 w4 I w5 n3 ov w6 S w7 sm where
    u: "u = a @ n1 @ ''='' @ w1 @ B @ w2 @ ''%'' @ n2 @ i @ w3 @ ''='' @ w4 @ I @ w5 @ ''%'' @ n3
           @ ov @ w6 @ S @ w7 @ sm"
    and f: "lower a = ''avg busy''" "lower i = ''avg idle''" "lower ov = ''over''"
      "lower sm = ''samples''"
      "list_all is_space w1" "list_all is_space w2" "list_all is_space w3" "list_all is_space w4"
      "list_all is_space w5" "list_all is_space w6" "list_all is_space w7"
      "is_decimal B" "is_decimal I" "is_digits S"
    and c: "m = [1 \<mapsto> B, 2 \<mapsto> I, 3 \<mapsto> S]"
    by blast
  have "text = pre @ a @ n1 @ ''='' @ w1 @ B @ w2 @ ''%'' @ n2 @ i @ w3 @ ''='' @ w4 @ I @ w5
                 @ ''%'' @ n3 @ ov @ w6 @ S @ w7 @ sm @ v"
    by (simp add: t u)
  with f have "cpu_line_parts text B I S pre n1 n2 n3 v"
    unfolding cpu_line_parts_def by blast
  then have "cpu_line text B I S" unfolding cpu_line_def by blast
  then show ?thesis using c by auto
qed

lemma cpu_full_search_complete:
  assumes "cpu_line text B I S"
  shows "\<exists>m. re_search IGNORECASE_DOTALL cpu_pat_full text = Some m"
proof -
  from assms obtain pre n1 n2 n3 post a w1 w2 i w3 w4 w5 ov w6 w7 sm where
    t: "text = pre @ a @ n1 @ ''='' @ w1 @ B @ w2 @ ''%'' @ n2 @ i @ w3 @ ''='' @ w4 @ I @ w5
                 @ ''%'' @ n3 @ ov @ w6 @ S @ w7 @ sm @ post"
    and f: "lower a = ''avg busy''" "lower i = ''avg idle''" "lower ov = ''over''"
      "lower sm = ''samples''"
      "list_all is_space w1" "list_all is_space w2" "list_all is_space w3" "list_all is_space w4"
      "list_all is_space w5" "list_all is_space w6" "list_all is_space w7"
      "is_decimal B" "is_decimal I" "is_digits S"
    unfolding cpu_line_def cpu_line_parts_def by blast
  let ?u = "a @ n1 @ ''='' @ w1 @ B @ w2 @ ''%'' @ n2 @ i @ w3 @ ''='' @ w4 @ I @ w5 @ ''%'' @ n3
        @ ov @ w6 @ S @ w7 @ sm"
  have "rmc IGNORECASE_DOTALL cpu_pat_full (lastp None pre) ?u post Map.empty
      [1 \<mapsto> B, 2 \<mapsto> I, 3 \<mapsto> S]"
    by (rule rmc_cpu_pat_full_I [OF f])
  from re_search_complete [OF this] have "\<exists>m. re_search IGNORECASE_DOTALL cpu_pat_full (pre @ ?u @ post) = Some m" .
  moreover have "text = pre @ ?u @ post" by (simp add: t)
  ultimately show ?thesis by simp
qed

lemma parse_cpu_full:
  assumes "re_search IGNORECASE_DOTALL cpu_pat_full text = Some m"
  shows "parse_avg_cpu_file text
       = Some \<lparr>busy = Some (float_of_decimal (group m 1)),
               idle = Some (float_of_decimal (group m 2)),
               samples = Some (int_of_digits (group m 3))\<rparr>"
    and "parse_avg_cpu_file_report text
       = Some \<lparr>busy = Some (float_of_decimal (group m 1)),
               idle = Some (float_of_decimal (group m 2)),
               samples = Some (int_of_digits (group m 3))\<rparr>"
  using assms by (simp_all add: parse_avg_cpu_file_unfold parse_avg_cpu_file_report_def)

lemma parse_cpu_line_some:
  assumes "cpu_line text B I S"
  shows "\<exists>B' I' S'. cpu_line text B' I' S'
    \<and> parse_avg_cpu_file text
        = Some \<lparr>busy = Some (float_of_decimal B'), idle = Some (float_of_decimal I'),
                samples = Some (int_of_digits S')\<rparr>
    \<and> parse_avg_cpu_file_report text
        = Some \<lparr>busy = Some (float_of_decimal B'), idle = Some (float_of_decimal I'),
                samples = Some (int_of_digits S')\<rparr>"
proof -
  from cpu_full_search_complete [OF assms] obtain m where
    m: "re_search IGNORECASE_DOTALL cpu_pat_full text = Some m" ..
  from cpu_full_search_sound [OF m] obtain B' I' S' where
    "cpu_line text B' I' S'" "m 1 = Some B'" "m 2 = Some I'" "m 3 = Some S'" by blast
  then show ?thesis using parse_cpu_full [OF m] by (auto simp: group_def)
qed

lemma takeWhile_run:
  assumes "\<forall>c\<in>set s. P c" "y = [] \<or> \<not> P (hd y)"
  shows "takeWhile P (s @ y) = s" "dropWhile P (s @ y) = y"
  using assms by (cases y; simp add: takeWhile_append2 dropWhile_append2)+

lemma run_unique:
  assumes e: "s @ y = s' @ y'"
    and s: "\<forall>c\<in>set s. P c" "y = [] \<or> \<not> P (hd y)"
    and s': "\<forall>c\<in>set s'. P c" "y' = [] \<or> \<not> P (hd y')"
  shows "s' = s \<and> y' = y"
proof -
  have "takeWhile P (s @ y) = s" "dropWhile P (s @ y) = y" using s by (rule takeWhile_run)+
  moreover have "takeWhile P (s' @ y') = s'" "dropWhile P (s' @ y') = y'"
    using s' by (rule takeWhile_run)+
  ultimately show ?thesis using e by simp
qed

lemma two_splits:
  assumes x: "x \<notin> set X0" "x \<notin> set X1" "x \<notin> set X2"
    and e: "X0 @ x # X1 @ x # X2 = Y0 @ x # Y1 @ x # Y2"
  shows "Y0 = X0 \<and> Y1 = X1 \<and> Y2 = X2"
proof -
  have "count_list (X0 @ x # X1 @ x # X2) x = 2" using x by simp
  with e have "count_list (Y0 @ x # Y1 @ x # Y2) x = 2" by simp
  then have y: "x \<notin> set Y0" "x \<notin> set Y1" "x \<notin> set Y2"
    by (simp_all add: count_list_0_iff [symmetric])
  from e have a: "Y0 = X0 \<and> x # Y1 @ x # Y2 = x # X1 @ x # X2"
    using x(1) y(1) by (intro run_unique [where P = "\<lambda>c. c \<noteq> x"]) auto
  then have "Y1 = X1 \<and> x # Y2 = x # X2"
    using x(2) y(2) by (intro run_unique [where P = "\<lambda>c. c \<noteq> x"]) auto
  with a show ?thesis by simp
qed

lemma lower_chars:
  assumes "lower u = l" "c \<in> set u" "\<not> is_upper c"
  shows "c \<in> set l"
proof -
  from assms(2) have "lower_char c \<in> set (lower u)" by (simp add: lower_def)
  with assms show ?thesis by (simp add: lower_char_not_upper)
qed

lemma decimal_chars:
  assumes "is_decimal d" "c \<in> set d"
  shows "is_digit c \<or> c = CHR ''.''"
proof -
  from assms(1) have "is_digits d \<or> (\<exists>ip fp. d = ip @ CHR ''.'' # fp \<and> is_digits ip \<and> is_digits fp)"
    by (simp add: is_decimal_iff)
  with assms(2) show ?thesis by (auto simp: is_digits_def list_all_iff)
qed

lemma number_after_spaces:
  assumes e: "w @ B @ w2 @ CHR ''%'' # r = w' @ B' @ w2' @ CHR ''%'' # r'"
    and w: "list_all is_space w" "list_all is_space w2" "is_decimal B"
    and w': "list_all is_space w'" "list_all is_space w2'" "is_decimal B'"
  shows "B' = B \<and> r' = r"
proof -
  have sp: "\<not> is_space CHR ''%''" by (simp add: is_space_def)
  have dg: "\<not> is_digit CHR ''%''" by (simp add: is_digit_def)
  let ?P = "\<lambda>c. is_digit c \<or> c = CHR ''.''"
  have sd: "\<not> ?P c" if "is_space c" for c
    using that by (auto simp: is_space_def is_digit_def)
  have nd: "\<not> ?P (hd (v @ CHR ''%'' # t))" if "list_all is_space v" for v t
    using that dg sd by (cases v) auto
  have hdB: "\<not> is_space (hd (b @ t))" if "is_decimal b" for b t
    using decimal_ends [OF that] by (cases b) (auto simp: digit_not_space)
  have 1: "w' = w \<and> B' @ w2' @ CHR ''%'' # r' = B @ w2 @ CHR ''%'' # r"
    using e w(1) w'(1) hdB [OF w(3)] hdB [OF w'(3)]
    by (intro run_unique [where P = is_space]) (auto simp: list_all_iff)
  then have 2: "B' = B \<and> w2' @ CHR ''%'' # r' = w2 @ CHR ''%'' # r"
    using nd [OF w(2)] nd [OF w'(2)] decimal_chars [OF w(3)] decimal_chars [OF w'(3)]
    by (intro run_unique [where P = ?P]) auto
  then have "w2' = w2 \<and> CHR ''%'' # r' = CHR ''%'' # r"
    using w(2) w'(2) sp
    by (intro run_unique [where P = is_space]) (auto simp: list_all_iff)
  with 2 show ?thesis by simp
qed

lemma single_digit_run:
  assumes e: "x @ S @ y = (n @ t) @ S' @ h @ z"
    and S: "is_digits S" "is_digits S'"
    and x: "\<forall>c\<in>set x. \<not> is_digit c" and y: "\<forall>c\<in>set y. \<not> is_digit c"
    and t: "\<forall>c\<in>set t. \<not> is_digit c" "t \<noteq> []"
    and h: "\<forall>c\<in>set h. \<not> is_digit c" "h \<noteq> []"
  shows "S' = S"
proof -
  from S have S0: "S \<noteq> []" "\<forall>c\<in>set S. is_digit c" and S0': "S' \<noteq> []" "\<forall>c\<in>set S'. is_digit c"
    by (simp_all add: is_digits_def list_all_iff)
  from S0' have hS': "is_digit (hd S')" by (cases S') simp_all
  from t have lt: "\<not> is_digit (last (n @ t))" by simp
  from e obtain us where
    "x = (n @ t) @ us \<and> us @ S @ y = S' @ h @ z \<or> x @ us = n @ t \<and> S @ y = us @ S' @ h @ z"
    unfolding append_eq_append_conv2 [of x "S @ y" "n @ t" "S' @ h @ z"] by blast
  then have r: "S @ y = S' @ h @ z"
  proof
    assume a: "x = (n @ t) @ us \<and> us @ S @ y = S' @ h @ z"
    have "us = []"
    proof (rule ccontr)
      assume "us \<noteq> []"
      with a S0' have "hd us = hd S'" by (cases us; cases S') auto
      moreover from \<open>us \<noteq> []\<close> a have "hd us \<in> set x" by (cases us) auto
      ultimately show False using x hS' by auto
    qed
    with a show ?thesis by simp
  next
    assume b: "x @ us = n @ t \<and> S @ y = us @ S' @ h @ z"
    have "us = []"
    proof (rule ccontr)
      assume n: "us \<noteq> []"
      with b have "last us = last (n @ t)" by (metis last_appendR)
      with lt have l: "\<not> is_digit (last us)" by simp
      from b obtain vs where
        "S = us @ vs \<and> vs @ y = S' @ h @ z \<or> S @ vs = us \<and> y = vs @ S' @ h @ z"
        unfolding append_eq_append_conv2 [of S y us "S' @ h @ z"] by blast
      then show False
      proof
        assume "S = us @ vs \<and> vs @ y = S' @ h @ z"
        with n have "last us \<in> set S" by simp
        with S0 l show False by blast
      next
        assume "S @ vs = us \<and> y = vs @ S' @ h @ z"
        with S0' have "hd S' \<in> set y" by (cases S') auto
        with y hS' show False by blast
      qed
    qed
    with b show ?thesis by simp
  qed
  have "y = [] \<or> \<not> is_digit (hd y)" using y by (cases y) auto
  moreover have "h @ z = [] \<or> \<not> is_digit (hd (h @ z))" using h by (cases h) auto
  ultimately have "S' = S \<and> h @ z = y"
    using r S0 S0' by (intro run_unique [where P = is_digit]) auto
  then show ?thesis by simp
qed


lemma equals_not_upper: "\<not> is_upper CHR ''=''"
  by (simp add: is_upper_def)

lemma eq_word:
  assumes "lower u = k" "CHR ''='' \<notin> set k"
  shows "CHR ''='' \<notin> set u"
  using lower_chars [OF assms(1) _ equals_not_upper] assms(2) by blast

lemma equals_not_space: "\<not> is_space CHR ''=''"
  by (simp add: is_space_def)

lemma equals_not_digit: "\<not> is_digit CHR ''=''"
  by (simp add: is_digit_def)

lemma eq_sp: "list_all is_space v \<Longrightarrow> CHR ''='' \<notin> set v"
  using equals_not_space by (auto simp: list_all_iff)

lemma eq_dec: "is_decimal b \<Longrightarrow> CHR ''='' \<notin> set b"
  using decimal_chars [of b "CHR ''=''"] equals_not_digit by auto

lemma eq_dig: "is_digits b \<Longrightarrow> CHR ''='' \<notin> set b"
  using equals_not_digit by (auto simp: is_digits_def list_all_iff)

lemma dg_word:
  assumes "lower u = k" "\<forall>c\<in>set k. \<not> is_digit c"
  shows "\<forall>c\<in>set u. \<not> is_digit c"
  using lower_chars [OF assms(1)] assms(2) digit_not_upper by blast

lemma dg_sp: "list_all is_space v \<Longrightarrow> \<forall>c\<in>set v. \<not> is_digit c"
  using digit_not_space by (auto simp: list_all_iff)

lemma dg_lit: "\<forall>c\<in>set ''over''. \<not> is_digit c" "\<forall>c\<in>set ''samples''. \<not> is_digit c"
  by (simp_all add: is_digit_def)

lemma eq_lit: "CHR ''='' \<notin> set ''avg busy''" "CHR ''='' \<notin> set ''avg idle''"
  "CHR ''='' \<notin> set ''over''" "CHR ''='' \<notin> set ''samples''"
  by simp_all

lemma cpu_line_partsE:
  assumes "cpu_line_parts text B I S pre n1 n2 n3 post"
  obtains a w1 w2 i w3 w4 w5 ov w6 w7 sm where
    "text = pre @ a @ n1 @ ''='' @ w1 @ B @ w2 @ ''%'' @ n2 @ i @ w3 @ ''='' @ w4 @ I @ w5
                 @ ''%'' @ n3 @ ov @ w6 @ S @ w7 @ sm @ post"
    "lower a = ''avg busy''" "lower i = ''avg idle''" "lower ov = ''over''"
    "lower sm = ''samples''"
    "list_all is_space w1" "list_all is_space w2" "list_all is_space w3"
    "list_all is_space w4" "list_all is_space w5" "list_all is_space w6" "list_all is_space w7"
    "is_decimal B" "is_decimal I" "is_digits S"
  using assms unfolding cpu_line_parts_def
  apply (elim exE conjE)
  apply (rule that)
  apply assumption+
  done

lemma cpu_line_parts_unique:
  assumes p: "cpu_line_parts text B I S pre n1 n2 n3 post"
    and e: "CHR ''='' \<notin> set (pre @ n1 @ n2 @ n3 @ post)"
    and d: "\<forall>c\<in>set (n3 @ post). \<not> is_digit c"
    and q: "cpu_line_parts text B' I' S' pre' n1' n2' n3' post'"
  shows "B' = B \<and> I' = I \<and> S' = S"
proof (rule cpu_line_partsE [OF p])
  fix a w1 w2 i w3 w4 w5 ov w6 w7 sm
  assume t: "text = pre @ a @ n1 @ ''='' @ w1 @ B @ w2 @ ''%'' @ n2 @ i @ w3 @ ''='' @ w4 @ I @ w5
                 @ ''%'' @ n3 @ ov @ w6 @ S @ w7 @ sm @ post"
    and l: "lower a = ''avg busy''" "lower i = ''avg idle''" "lower ov = ''over''"
      "lower sm = ''samples''"
    and w: "list_all is_space w1" "list_all is_space w2" "list_all is_space w3"
      "list_all is_space w4" "list_all is_space w5" "list_all is_space w6" "list_all is_space w7"
    and n: "is_decimal B" "is_decimal I" "is_digits S"
  show ?thesis
  proof (rule cpu_line_partsE [OF q])
  fix a' w1' w2' i' w3' w4' w5' ov' w6' w7' sm'
  assume t': "text = pre' @ a' @ n1' @ ''='' @ w1' @ B' @ w2' @ ''%'' @ n2' @ i' @ w3' @ ''='' @ w4'
                 @ I' @ w5' @ ''%'' @ n3' @ ov' @ w6' @ S' @ w7' @ sm' @ post'"
    and l': "lower a' = ''avg busy''" "lower i' = ''avg idle''" "lower ov' = ''over''"
      "lower sm' = ''samples''"
    and w': "list_all is_space w1'" "list_all is_space w2'" "list_all is_space w3'"
      "list_all is_space w4'" "list_all is_space w5'" "list_all is_space w6'"
      "list_all is_space w7'"
    and n': "is_decimal B'" "is_decimal I'" "is_digits S'"
  let ?X0 = "pre @ a @ n1"
  let ?X1 = "w1 @ B @ w2 @ CHR ''%'' # n2 @ i @ w3"
  let ?X2 = "w4 @ I @ w5 @ CHR ''%'' # n3 @ ov @ w6 @ S @ w7 @ sm @ post"
  let ?Y0 = "pre' @ a' @ n1'"
  let ?Y1 = "w1' @ B' @ w2' @ CHR ''%'' # n2' @ i' @ w3'"
  let ?Y2 = "w4' @ I' @ w5' @ CHR ''%'' # n3' @ ov' @ w6' @ S' @ w7' @ sm' @ post'"
  have x0: "CHR ''='' \<notin> set ?X0" using e eq_word [OF l(1) eq_lit(1)] by simp
  have x1: "CHR ''='' \<notin> set ?X1"
    using e eq_word [OF l(2) eq_lit(2)] eq_sp [OF w(1)] eq_sp [OF w(2)] eq_sp [OF w(3)] eq_dec [OF n(1)]
    by simp
  have x2: "CHR ''='' \<notin> set ?X2"
    using e eq_word [OF l(3) eq_lit(3)] eq_word [OF l(4) eq_lit(4)] eq_sp [OF w(4)] eq_sp [OF w(5)] eq_sp [OF w(6)]
      eq_sp [OF w(7)] eq_dec [OF n(2)] eq_dig [OF n(3)]
    by simp
  have a: "text = ?X0 @ CHR ''='' # ?X1 @ CHR ''='' # ?X2" by (simp add: t)
  have b: "text = ?Y0 @ CHR ''='' # ?Y1 @ CHR ''='' # ?Y2" by (simp add: t')
  have "?X0 @ CHR ''='' # ?X1 @ CHR ''='' # ?X2 = ?Y0 @ CHR ''='' # ?Y1 @ CHR ''='' # ?Y2"
    by (rule trans [OF sym [OF a] b])
  from two_splits [OF x0 x1 x2 this] have y1: "?Y1 = ?X1" and y2: "?Y2 = ?X2"
    by (rule conjunct1 [OF conjunct2], rule conjunct2 [OF conjunct2])
  from number_after_spaces [OF sym [OF y1] w(1,2) n(1) w'(1,2) n'(1)] have B: "B' = B"
    by (rule conjunct1)
  from number_after_spaces [OF sym [OF y2] w(4,5) n(2) w'(4,5) n'(2)]
  have I: "I' = I" and r: "n3' @ ov' @ w6' @ S' @ w7' @ sm' @ post' = n3 @ ov @ w6 @ S @ w7 @ sm @ post"
    by (rule conjunct1, rule conjunct2)
  have ne: "ov' \<noteq> []" "sm' \<noteq> []"
    using l'(3) l'(4) by (auto simp: lower_def)
  have "(n3 @ ov @ w6) @ S @ (w7 @ sm @ post) = (n3' @ (ov' @ w6')) @ S' @ (w7' @ sm') @ post'"
    by (simp only: append_assoc r)
  then have "S' = S"
  proof (rule single_digit_run)
    show "is_digits S" "is_digits S'" by (rule n n')+
    show "\<forall>c\<in>set (n3 @ ov @ w6). \<not> is_digit c"
      using d dg_word [OF l(3) dg_lit(1)] dg_sp [OF w(6)] by auto
    show "\<forall>c\<in>set (w7 @ sm @ post). \<not> is_digit c"
      using d dg_word [OF l(4) dg_lit(2)] dg_sp [OF w(7)] by auto
    show "\<forall>c\<in>set (ov' @ w6'). \<not> is_digit c"
      using dg_word [OF l'(3) dg_lit(1)] dg_sp [OF w'(6)] by auto
    show "\<forall>c\<in>set (w7' @ sm'). \<not> is_digit c"
      using dg_word [OF l'(4) dg_lit(2)] dg_sp [OF w'(7)] by auto
    show "ov' @ w6' \<noteq> []" "w7' @ sm' \<noteq> []" using ne by simp_all
  qed
  with B I show ?thesis by simp
  qed
qed

lemma parse_cpu_line_parts:
  assumes p: "cpu_line_parts text B I S pre n1 n2 n3 post"
    and e: "CHR ''='' \<notin> set (pre @ n1 @ n2 @ n3 @ post)"
    and d: "\<forall>c\<in>set (n3 @ post). \<not> is_digit c"
  shows "parse_avg_cpu_file text
        = Some \<lparr>busy = Some (float_of_decimal B), idle = Some (float_of_decimal I),
                samples = Some (int_of_digits S)\<rparr>"
    and "parse_avg_cpu_file_report text
        = Some \<lparr>busy = Some (float_of_decimal B), idle = Some (float_of_decimal I),
                samples = Some (int_of_digits S)\<rparr>"
proof -
  from p have "cpu_line text B I S" unfolding cpu_line_def by blast
  from cpu_full_search_complete [OF this] obtain m where
    m: "re_search IGNORECASE_DOTALL cpu_pat_full text = Some m" ..
  from cpu_full_search_sound [OF m] obtain B' I' S' where
    l: "cpu_line text B' I' S'" and g: "m 1 = Some B'" "m 2 = Some I'" "m 3 = Some S'" by blast
  from l obtain pre' n1' n2' n3' post' where
    "cpu_line_parts text B' I' S' pre' n1' n2' n3' post'" unfolding cpu_line_def by blast
  from cpu_line_parts_unique [OF p e d this] have "B' = B" "I' = I" "S' = S" by simp_all
  with g have "group m 1 = B" "group m 2 = I" "group m 3 = S" by (simp_all add: group_def)
  with parse_cpu_full [OF m] show "parse_avg_cpu_file text
        = Some \<lparr>busy = Some (float_of_decimal B), idle = Some (float_of_decimal I),
                samples = Some (int_of_digits S)\<rparr>"
    and "parse_avg_cpu_file_report text
        = Some \<lparr>busy = Some (float_of_decimal B), idle = Some (float_of_decimal I),
                samples = Some (int_of_digits S)\<rparr>"
    by simp_all
qed

text \<open>
  Claim C1, as amended: on a text that contains the richest CPU-log pattern both variants of
  \<open>parse_avg_cpu_file\<close> return the busy percentage, the idle percentage and the sample
  count of an occurrence of the pattern in the text. They are the embedded \<open>B\<close>, \<open>I\<close>
  and \<open>S\<close> whenever the noise around and between the clauses, line breaks included, holds
  no further "=" and no digit follows the idle percentage outside \<open>S\<close>.
\<close>

theorem parse_avg_cpu_file_full_pattern:
  "(cpu_line text B I S \<longrightarrow>
      (\<exists>B' I' S'. cpu_line text B' I' S'
         \<and> parse_avg_cpu_file text
             = Some \<lparr>busy = Some (float_of_decimal B'), idle = Some (float_of_decimal I'),
                     samples = Some (int_of_digits S')\<rparr>
         \<and> parse_avg_cpu_file_report text
             = Some \<lparr>busy = Some (float_of_decimal B'), idle = Some (float_of_decimal I'),
                     samples = Some (int_of_digits S')\<rparr>))
   \<and> (cpu_line_parts text B I S pre n1 n2 n3 post
        \<and> CHR ''='' \<notin> set (pre @ n1 @ n2 @ n3 @ post)
        \<and> (\<forall>c\<in>set (n3 @ post). \<not> is_digit c) \<longrightarrow>
      parse_avg_cpu_file text
        = Some \<lparr>busy = Some (float_of_decimal B), idle = Some (float_of_decimal I),
                samples = Some (int_of_digits S)\<rparr>
      \<and> parse_avg_cpu_file_report text
        = Some \<lparr>busy = Some (float_of_decimal B), idle = Some (float_of_decimal I),
                samples = Some (int_of_digits S)\<rparr>)"
  using parse_cpu_line_some [of "text" B I S]
    parse_cpu_line_parts [of "text" B I S pre n1 n2 n3 post]
  by blast

text \<open>A CPU log with the three clauses on three lines.\<close>

theorem parse_avg_cpu_file_full_pattern_witness:
  "cpu_line cpu_text_lines ''11.75'' ''88.25'' ''1990''
   \<and> parse_avg_cpu_file cpu_text_lines
       = Some \<lparr>busy = Some (1175 / 100), idle = Some (8825 / 100), samples = Some 1990\<rparr>
   \<and> parse_avg_cpu_file_report cpu_text_lines
       = Some \<lparr>busy = Some (1175 / 100), idle = Some (8825 / 100), samples = Some 1990\<rparr>"
proof -
  have p: "cpu_line_parts cpu_text_lines ''11.75'' ''88.25'' ''1990''
      [] '' (all cpus) '' (newline @ ''('') ('')'' @ newline) []"
    unfolding cpu_line_parts_def
    apply (rule exI [of _ "''AVG busy''"])
    apply (rule exI [of _ "'' ''"])
    apply (rule exI [of _ "'' ''"])
    apply (rule exI [of _ "''avg idle''"])
    apply (rule exI [of _ "[]"])
    apply (rule exI [of _ "[]"])
    apply (rule exI [of _ "[]"])
    apply (rule exI [of _ "''over''"])
    apply (rule exI [of _ "'' ''"])
    apply (rule exI [of _ "'' ''"])
    apply (rule exI [of _ "''samples''"])
    apply code_simp
    done
  then have l: "cpu_line cpu_text_lines ''11.75'' ''88.25'' ''1990''"
    unfolding cpu_line_def by blast
  have h: "CHR ''='' \<notin> set ([] @ '' (all cpus) '' @ (newline @ ''('') @ ('')'' @ newline) @ [])"
    "\<forall>c\<in>set (('')'' @ newline) @ []). \<not> is_digit c"
    by code_simp+
  have v: "float_of_decimal ''11.75'' = 1175 / 100" "float_of_decimal ''88.25'' = 8825 / 100"
    "int_of_digits ''1990'' = 1990"
    by code_simp+
  from parse_avg_cpu_file_full_pattern [of cpu_text_lines "''11.75''" "''88.25''" "''1990''"
      "[]" "'' (all cpus) ''" "newline @ ''(''" "'')'' @ newline" "[]"] p l h v
  show ?thesis by simp
qed

text \<open>The claim as stated fails where the noise holds a percentage of its own: the text
  embeds the pattern with B = 11.75, and both variants return the busy percentage 3 of the
  remark between the clauses.\<close>

theorem parse_avg_cpu_file_full_pattern_counterexample:
  "cpu_line cpu_text_remark ''11.75'' ''88.25'' ''1990''
   \<and> float_of_decimal ''11.75'' = 1175 / 100
   \<and> parse_avg_cpu_file cpu_text_remark
       = Some \<lparr>busy = Some 3, idle = Some (8825 / 100), samples = Some 1990\<rparr>
   \<and> parse_avg_cpu_file_report cpu_text_remark
       = Some \<lparr>busy = Some 3, idle = Some (8825 / 100), samples = Some 1990\<rparr>"
proof -
  have "cpu_line_parts cpu_text_remark ''11.75'' ''88.25'' ''1990''
      [] '' (all cpus) '' '' (was =3%) ('' '') '' []"
    unfolding cpu_line_parts_def
    apply (rule exI [of _ "''AVG busy''"])
    apply (rule exI [of _ "'' ''"])
    apply (rule exI [of _ "'' ''"])
    apply (rule exI [of _ "''avg idle''"])
    apply (rule exI [of _ "[]"])
    apply (rule exI [of _ "[]"])
    apply (rule exI [of _ "[]"])
    apply (rule exI [of _ "''over''"])
    apply (rule exI [of _ "'' ''"])
    apply (rule exI [of _ "'' ''"])
    apply (rule exI [of _ "''samples''"])
    apply code_simp
    done
  then have "cpu_line cpu_text_remark ''11.75'' ''88.25'' ''1990''"
    unfolding cpu_line_def by blast
  moreover have "float_of_decimal ''11.75'' = 1175 / 100"
    "parse_avg_cpu_file cpu_text_remark
       = Some \<lparr>busy = Some 3, idle = Some (8825 / 100), samples = Some 1990\<rparr>"
    "parse_avg_cpu_file_report cpu_text_remark
       = Some \<lparr>busy = Some 3, idle = Some (8825 / 100), samples = Some 1990\<rparr>"
    by code_simp+
  ultimately show ?thesis by simp
qed

end
